theory Spec2Isabelle
  imports Main "HOL-Library.Sublist"
begin

section \<open>Rate-limited dispatch and the rolling key matcher of script.js\<close>

text \<open>
  The development embeds three pieces of \<^verbatim>\<open>src/script.js\<close>: the anonymous
  \<^verbatim>\<open>keydown\<close> listener that watches for the Konami code (lines 624-640),
  \<^verbatim>\<open>throttle\<close> (lines 569-580) and \<^verbatim>\<open>debounce\<close> (lines 582-592).
  JavaScript arrays are lists, strings are \<^typ>\<open>string\<close>, closure variables are
  fields of an explicit state record, and the host's timer facility is an explicit queue
  of pending timers driven by a simulated clock: a timer fires as soon as the clock
  reaches its due time, before any call made at that time. Execution is single-threaded
  and run-to-completion, so a run is a list of events handled one after the other. A
  call of the wrapped callback either returns or throws, and both are values of the
  model; while it runs it may call the wrapper it is wrapped in, on a call stack of
  finite depth. The script is not in strict mode, and the \<^verbatim>\<open>this\<close> of its functions
  is bound accordingly. Each wrapper instance has a state of its own.
\<close>

subsection \<open>The Konami listener\<close>

text \<open>
  \<^verbatim>\<open>
  let konamiCode = [];
  document.addEventListener('keydown', function(e) {
      konamiCode.push(e.key);
      if (konamiCode.length > 10) {
          konamiCode.shift();
      }
      if (konamiCode.join('') === 'ArrowUpArrowUp...ArrowRightba') {
          alert(...);
          document.body.style.background = 'linear-gradient(...)';
          document.body.style.animation = 'rainbow 2s infinite';
          setTimeout(() => { ...background = ''; ...animation = ''; }, 5000);
      }
  });
  \<close>
  The page state the listener touches: the buffer, the number of alerts raised so far
  (the match signal), the two style properties of the body, and the delays of the style
  resets handed to \<^verbatim>\<open>setTimeout\<close>. The reset callback only clears the two
  style properties; it never reads or writes the buffer and is not run here.
  \<open>e.key\<close> is a string for every keyboard event, so an event is its key string.
\<close>

record page =
  konamiCode :: "string list"
  alerts :: nat
  background :: string
  animation :: string
  resets :: "nat list"

definition page_init :: page where
  "page_init = \<lparr>konamiCode = [], alerts = 0, background = [], animation = [], resets = []\<rparr>"

text \<open>The string literal the listener compares with.\<close>

definition konami_string :: string where
  "konami_string =
     ''ArrowUpArrowUpArrowDownArrowDownArrowLeftArrowRightArrowLeftArrowRightba''"

text \<open>\<^verbatim>\<open>Array.prototype.push\<close>, \<^verbatim>\<open>shift\<close> (which leaves an empty array
  empty) and \<^verbatim>\<open>join('')\<close> on an array of strings.\<close>

definition push :: "'a list \<Rightarrow> 'a \<Rightarrow> 'a list" where
  "push xs x = xs @ [x]"

definition shift :: "'a list \<Rightarrow> 'a list" where
  "shift xs = (case xs of [] \<Rightarrow> [] | _ # rest \<Rightarrow> rest)"

definition join :: "string list \<Rightarrow> string" where
  "join xs = concat xs"

text \<open>The body of the matching branch.\<close>

definition activate :: "page \<Rightarrow> page" where
  "activate p =
     p\<lparr>alerts := Suc (alerts p),
       background := ''linear-gradient(45deg, #ff0000, #ffff00, #00ff00, #00ffff, #0000ff, #ff00ff)'',
       animation := ''rainbow 2s infinite'',
       resets := resets p @ [5000]\<rparr>"

text \<open>The first two statements of the listener: append, then evict the oldest key when the
  buffer has grown past ten.\<close>

definition record_key :: "string list \<Rightarrow> string \<Rightarrow> string list" where
  "record_key buf key =
     (let pushed = push buf key in if length pushed > 10 then shift pushed else pushed)"

definition keydown :: "page \<Rightarrow> string \<Rightarrow> page" where
  "keydown p key =
     (let p1 = p\<lparr>konamiCode := record_key (konamiCode p) key\<rparr>
      in if join (konamiCode p1) = konami_string then activate p1 else p1)"

text \<open>A stream of key presses, dispatched one after the other.\<close>

definition feed :: "page \<Rightarrow> string list \<Rightarrow> page" where
  "feed p keys = foldl keydown p keys"

text \<open>The ten-key target sequence of the specification. The source only holds its
  concatenation, \<^const>\<open>konami_string\<close>.\<close>

definition konami_keys :: "string list" where
  "konami_keys =
     [''ArrowUp'', ''ArrowUp'', ''ArrowDown'', ''ArrowDown'', ''ArrowLeft'', ''ArrowRight'',
      ''ArrowLeft'', ''ArrowRight'', ''b'', ''a'']"

text \<open>The window of the last (at most) ten keys of a stream.\<close>

definition window :: "string list \<Rightarrow> string list" where
  "window keys = drop (length keys - 10) keys"

subsection \<open>JavaScript values, callbacks and the host's timers\<close>

text \<open>
  Values are kept abstract enough to tell arguments and receivers apart. A number is an
  integer here: the only numbers the wrappers compute with are timer handles. Objects
  are ordinary objects (told apart by a number), the global object, the wrapper objects
  that \<^verbatim>\<open>ToObject\<close> makes of a primitive, and the \<^verbatim>\<open>RangeError\<close> an engine
  throws when the call stack is exhausted.
  \<open>truthy\<close> is the language's \<^verbatim>\<open>ToBoolean\<close>, used by \<^verbatim>\<open>!inThrottle\<close>.
\<close>

datatype jsval =
    Undefined | Null | Boolean bool | Number int | String string
  | Object nat | Global | BooleanObject bool | NumberObject int | StringObject string
  | RangeError

fun truthy :: "jsval \<Rightarrow> bool" where
  "truthy Undefined = False"
| "truthy Null = False"
| "truthy (Boolean b) = b"
| "truthy (Number n) = (n \<noteq> 0)"
| "truthy (String s) = (s \<noteq> [])"
| "truthy _ = True"

text \<open>
  \<^verbatim>\<open>script.js\<close> has no \<^verbatim>\<open>'use strict'\<close> directive, so the functions it
  declares are sloppy-mode functions. In such a function \<^verbatim>\<open>this\<close> is not the receiver
  of the call as it was passed, but what \<^verbatim>\<open>OrdinaryCallBindThis\<close> makes of it: the
  global object for \<^verbatim>\<open>undefined\<close> and \<^verbatim>\<open>null\<close>, a wrapper object for a primitive,
  and the receiver itself when it is an object.
\<close>

fun this_binding :: "jsval \<Rightarrow> jsval" where
  "this_binding Undefined = Global"
| "this_binding Null = Global"
| "this_binding (Boolean b) = BooleanObject b"
| "this_binding (Number n) = NumberObject n"
| "this_binding (String s) = StringObject s"
| "this_binding object = object"

text \<open>A call either returns a value or throws one.\<close>

datatype completion = Return jsval | Throw jsval

text \<open>
  The wrapped function \<^verbatim>\<open>func\<close> is opaque. What the wrappers do with it is
  observable as the list of its invocations: when it was called, which \<^verbatim>\<open>this\<close>
  value the call passed to it (the receiver) and which arguments and, where the call
  cannot nest, how it completed. The receiver logged is the value passed: a callback in
  strict mode sees it as its \<^verbatim>\<open>this\<close>, one in sloppy mode sees its
  \<open>this_binding\<close>. The closure variables of a wrapper are local to
  \<^verbatim>\<open>throttle\<close> and \<^verbatim>\<open>debounce\<close>: the callback reaches the wrapper's state
  only by calling the wrapper.
\<close>

record call =
  at :: nat
  receiver :: jsval
  arguments :: "jsval list"

record invocation = call +
  outcome :: completion

text \<open>
  The callback handed to \<^verbatim>\<open>debounce\<close> runs inside a timer callback, after the
  wrapper has done all it does for that timer. If it calls the debounced wrapper while it
  runs, that call finds the state the timer left and is an ordinary call of the wrapper
  at that time: a \<open>Call\<close> event of the run. So this callback is a function of the
  clock, its earlier invocations, the receiver and the arguments to a completion.
\<close>

type_synonym callback = "nat \<Rightarrow> invocation list \<Rightarrow> jsval \<Rightarrow> jsval list \<Rightarrow> completion"

text \<open>
  The callback handed to \<^verbatim>\<open>throttle\<close> runs in the middle of the wrapper, so a
  call it makes to its own wrapper while it runs is part of its behaviour: it finishes
  with a completion, or it calls the wrapper with a receiver and arguments and goes on
  according to how that call completed (it may catch what the call threw).
\<close>

datatype behaviour =
    Finish completion
  | Reenter jsval "jsval list" "completion \<Rightarrow> behaviour"

type_synonym reentrant_callback = "nat \<Rightarrow> call list \<Rightarrow> jsval \<Rightarrow> jsval list \<Rightarrow> behaviour"

text \<open>Running a behaviour against a wrapper, given as a function on the state.\<close>

primrec perform ::
  "(jsval \<Rightarrow> jsval list \<Rightarrow> 's \<Rightarrow> 's \<times> completion) \<Rightarrow> behaviour \<Rightarrow> 's \<Rightarrow> 's \<times> completion" where
  "perform wrapper (Finish c) = (\<lambda>w. (w, c))"
| "perform wrapper (Reenter this args continue) =
     (\<lambda>w. case wrapper this args w of (w1, c) \<Rightarrow> perform wrapper (continue c) w1)"

text \<open>
  The host: a clock in milliseconds, the handle the next \<^verbatim>\<open>setTimeout\<close> will
  return, the pending timers in the order they were scheduled, and the invocations of the
  callback so far. A timer's callback is represented by what the closure captured.
  Delays are natural numbers of milliseconds.
\<close>

record 'cb timer =
  handle :: nat
  due :: nat
  callback :: 'cb

record ('cb, 'e) host =
  clock :: nat
  nextHandle :: nat
  pending :: "'cb timer list"
  calls :: "'e list"

definition setTimeout ::
  "'cb \<Rightarrow> nat \<Rightarrow> ('cb, 'e, 'm) host_scheme \<Rightarrow> jsval \<times> ('cb, 'e, 'm) host_scheme" where
  "setTimeout cb delay h =
     (Number (int (nextHandle h)),
      h\<lparr>nextHandle := Suc (nextHandle h),
        pending := pending h @ [\<lparr>handle = nextHandle h, due = clock h + delay, callback = cb\<rparr>]\<rparr>)"

text \<open>\<^verbatim>\<open>clearTimeout\<close> of a value that is no pending handle, \<^verbatim>\<open>undefined\<close>
  included, does nothing.\<close>

definition clearTimeout ::
  "jsval \<Rightarrow> ('cb, 'e, 'm) host_scheme \<Rightarrow> ('cb, 'e, 'm) host_scheme" where
  "clearTimeout v h = h\<lparr>pending := filter (\<lambda>t. Number (int (handle t)) \<noteq> v) (pending h)\<rparr>"

text \<open>The pending timer that fires next: the earliest due, and among equals the one
  scheduled first.\<close>

fun earliest :: "'cb timer list \<Rightarrow> 'cb timer option" where
  "earliest [] = None"
| "earliest (t # ts) =
     (case earliest ts of
        None \<Rightarrow> Some t
      | Some u \<Rightarrow> if due t \<le> due u then Some t else Some u)"

text \<open>Calling a callback that cannot nest, with a receiver and arguments: the call is
  logged with its completion.\<close>

definition invoke ::
  "callback \<Rightarrow> jsval \<Rightarrow> jsval list \<Rightarrow> ('cb, invocation, 'm) host_scheme
     \<Rightarrow> completion \<times> ('cb, invocation, 'm) host_scheme" where
  "invoke func this args h =
     (let r = func (clock h) (calls h) this args
      in (r, h\<lparr>calls := calls h @
            [\<lparr>at = clock h, receiver = this, arguments = args, outcome = r\<rparr>]\<rparr>))"

text \<open>What happens to a wrapper: it is called with a receiver and arguments, or time
  passes.\<close>

datatype event = Call jsval "jsval list" | Advance nat

subsection \<open>throttle\<close>

text \<open>
  \<^verbatim>\<open>
  function throttle(func, limit) {
      let inThrottle;
      return function() {
          const args = arguments;
          const context = this;
          if (!inThrottle) {
              func.apply(context, args);
              inThrottle = true;
              setTimeout(() => inThrottle = false, limit);
          }
      }
  }
  \<close>
  The state of one throttled wrapper is the host together with the closure variable
  \<^verbatim>\<open>inThrottle\<close>, which starts out \<^verbatim>\<open>undefined\<close>. The only timer callback is
  the arrow function that resets it; it captures nothing else.
\<close>

record throttle_state = "(unit, call) host" +
  inThrottle :: jsval

definition throttle_new :: throttle_state where
  "throttle_new =
     \<lparr>clock = 0, nextHandle = 1, pending = [], calls = [], inThrottle = Undefined\<rparr>"

text \<open>
  The body of the returned function, given what a call of the wrapper from inside
  \<^verbatim>\<open>func\<close> does (\<open>inner\<close>). \<^verbatim>\<open>context\<close> is the \<^verbatim>\<open>this\<close> of the returned
  function, a sloppy-mode function. \<^verbatim>\<open>func.apply(context, args)\<close> starts the
  invocation, which is logged, and runs the callback; \<^verbatim>\<open>inThrottle\<close> is still unset
  while it runs. When it throws, the two statements after it are not reached and the
  exception leaves the wrapper.
\<close>

definition throttled_body ::
  "(jsval \<Rightarrow> jsval list \<Rightarrow> throttle_state \<Rightarrow> throttle_state \<times> completion)
     \<Rightarrow> reentrant_callback \<Rightarrow> nat \<Rightarrow> jsval \<Rightarrow> jsval list \<Rightarrow> throttle_state
     \<Rightarrow> throttle_state \<times> completion" where
  "throttled_body inner func limit this args w =
     (if \<not> truthy (inThrottle w) then
        (let context = this_binding this;
             started = w\<lparr>calls := calls w @
                         [\<lparr>at = clock w, receiver = context, arguments = args\<rparr>]\<rparr>
         in case perform inner (func (clock w) (calls w) context args) started of
              (w1, Throw e) \<Rightarrow> (w1, Throw e)
            | (w1, Return r) \<Rightarrow>
                (let w2 = w1\<lparr>inThrottle := Boolean True\<rparr>;
                     (h, w3) = setTimeout () limit w2
                 in (w3, Return Undefined)))
      else (w, Return Undefined))"

text \<open>A call for which the stack has no room left throws at once.\<close>

definition overflow ::
  "jsval \<Rightarrow> jsval list \<Rightarrow> throttle_state \<Rightarrow> throttle_state \<times> completion" where
  "overflow this args w = (w, Throw RangeError)"

text \<open>
  The returned function. The engine's call stack is finite: \<open>depth\<close> is the number of
  nested calls of the wrapper from inside the callback that it still has room for.
\<close>

primrec throttled ::
  "nat \<Rightarrow> reentrant_callback \<Rightarrow> nat \<Rightarrow> jsval \<Rightarrow> jsval list \<Rightarrow> throttle_state
     \<Rightarrow> throttle_state \<times> completion" where
  "throttled 0 func limit = throttled_body overflow func limit"
| "throttled (Suc depth) func limit = throttled_body (throttled depth func limit) func limit"

text \<open>The timer callback \<^verbatim>\<open>() => inThrottle = false\<close>.\<close>

definition unlock :: "throttle_state \<Rightarrow> throttle_state" where
  "unlock w = w\<lparr>inThrottle := Boolean False\<rparr>"

lemma earliest_mem: "earliest ts = Some t \<Longrightarrow> t \<in> set ts"
  by (induction ts arbitrary: t) (auto split: option.splits if_splits)

lemma length_filter_handle:
  "earliest ts = Some t \<Longrightarrow> length (filter (\<lambda>u. handle u \<noteq> handle t) ts) < length ts"
  by (rule length_filter_less [OF earliest_mem]) simp_all

text \<open>The host runs every timer that is due up to a given time, earliest first; a timer
  leaves the queue when it fires, and fires at its due time.\<close>

function throttle_timers :: "nat \<Rightarrow> throttle_state \<Rightarrow> throttle_state" where
  "throttle_timers until w =
     (case earliest (pending w) of
        None \<Rightarrow> w
      | Some t \<Rightarrow>
          if due t \<le> until
          then throttle_timers until
                 (unlock (w\<lparr>clock := max (clock w) (due t),
                              pending := filter (\<lambda>u. handle u \<noteq> handle t) (pending w)\<rparr>))
          else w)"
  by pat_completeness auto
termination
  by (relation "measure (\<lambda>(until, w). length (pending w))")
     (simp_all add: unlock_def length_filter_handle)

declare throttle_timers.simps [simp del]

definition throttle_advance :: "nat \<Rightarrow> throttle_state \<Rightarrow> throttle_state" where
  "throttle_advance dt w = (throttle_timers (clock w + dt) w)\<lparr>clock := clock w + dt\<rparr>"

text \<open>An exception thrown out of the wrapper reaches the host's event dispatch, which
  reports it and goes on with the next event. A call made by the host starts on a stack
  with room for \<open>depth\<close> nested calls.\<close>

fun throttle_step ::
  "nat \<Rightarrow> reentrant_callback \<Rightarrow> nat \<Rightarrow> throttle_state \<Rightarrow> event \<Rightarrow> throttle_state" where
  "throttle_step depth func limit w (Call this args) =
     fst (throttled depth func limit this args w)"
| "throttle_step depth func limit w (Advance dt) = throttle_advance dt w"

definition throttle_run ::
  "nat \<Rightarrow> reentrant_callback \<Rightarrow> nat \<Rightarrow> throttle_state \<Rightarrow> event list \<Rightarrow> throttle_state" where
  "throttle_run depth func limit w evs = foldl (throttle_step depth func limit) w evs"

subsection \<open>debounce\<close>

text \<open>
  \<^verbatim>\<open>
  function debounce(func, wait) {
      let timeout;
      return function executedFunction(...args) {
          const later = () => {
              clearTimeout(timeout);
              func(...args);
          };
          clearTimeout(timeout);
          timeout = setTimeout(later, wait);
      };
  }
  \<close>
  The closure variable is \<^verbatim>\<open>timeout\<close>. Each call creates its own \<^verbatim>\<open>later\<close>,
  which captures the arguments of that call; \<^verbatim>\<open>later\<close> reads \<^verbatim>\<open>timeout\<close> when
  it runs. The plain call \<^verbatim>\<open>func(...args)\<close> passes no receiver: the \<^verbatim>\<open>this\<close> value
  of the call is \<^verbatim>\<open>undefined\<close> (a callee in sloppy mode sees the global object in
  its place), and the receiver of \<^verbatim>\<open>executedFunction\<close> is never read. Whatever
  \<^verbatim>\<open>func\<close> returns or throws inside \<^verbatim>\<open>later\<close> goes to the host.
\<close>

record debounce_state = "(jsval list, invocation) host" +
  timeout :: jsval

definition debounce_new :: debounce_state where
  "debounce_new =
     \<lparr>clock = 0, nextHandle = 1, pending = [], calls = [], timeout = Undefined\<rparr>"

definition later :: "callback \<Rightarrow> jsval list \<Rightarrow> debounce_state \<Rightarrow> debounce_state" where
  "later func args w = snd (invoke func Undefined args (clearTimeout (timeout w) w))"

definition debounced ::
  "callback \<Rightarrow> nat \<Rightarrow> jsval \<Rightarrow> jsval list \<Rightarrow> debounce_state
     \<Rightarrow> debounce_state \<times> completion" where
  "debounced func wait this args w =
     (let w1 = clearTimeout (timeout w) w;
          (h, w2) = setTimeout args wait w1
      in (w2\<lparr>timeout := h\<rparr>, Return Undefined))"

lemma length_pending_later: "length (pending (later func args w)) \<le> length (pending w)"
  by (simp add: later_def invoke_def clearTimeout_def Let_def)

function debounce_timers :: "callback \<Rightarrow> nat \<Rightarrow> debounce_state \<Rightarrow> debounce_state" where
  "debounce_timers func until w =
     (case earliest (pending w) of
        None \<Rightarrow> w
      | Some t \<Rightarrow>
          if due t \<le> until
          then debounce_timers func until
                 (later func (callback t)
                    (w\<lparr>clock := max (clock w) (due t),
                       pending := filter (\<lambda>u. handle u \<noteq> handle t) (pending w)\<rparr>))
          else w)"
  by pat_completeness auto
termination
proof (relation "measure (\<lambda>(func, until, w). length (pending w))")
  show "wf (measure (\<lambda>(func, until, w). length (pending w)))"
    by simp
next
  fix func :: callback and until :: nat and w :: debounce_state and t :: "(jsval list) timer"
  assume t: "earliest (pending w) = Some t"
  let ?w = "w\<lparr>clock := max (clock w) (due t),
      pending := filter (\<lambda>u. handle u \<noteq> handle t) (pending w)\<rparr>"
  have "length (pending (later func (callback t) ?w)) \<le> length (pending ?w)"
    by (rule length_pending_later)
  also have "\<dots> < length (pending w)"
    using length_filter_handle [OF t] by simp
  finally show "((func, until, later func (callback t) ?w), (func, until, w))
      \<in> measure (\<lambda>(func, until, w). length (pending w))"
    by simp
qed

declare debounce_timers.simps [simp del]

definition debounce_advance :: "callback \<Rightarrow> nat \<Rightarrow> debounce_state \<Rightarrow> debounce_state" where
  "debounce_advance func dt w =
     (debounce_timers func (clock w + dt) w)\<lparr>clock := clock w + dt\<rparr>"

fun debounce_step :: "callback \<Rightarrow> nat \<Rightarrow> debounce_state \<Rightarrow> event \<Rightarrow> debounce_state" where
  "debounce_step func wait w (Call this args) = fst (debounced func wait this args w)"
| "debounce_step func wait w (Advance dt) = debounce_advance func dt w"

definition debounce_run ::
  "callback \<Rightarrow> nat \<Rightarrow> debounce_state \<Rightarrow> event list \<Rightarrow> debounce_state" where
  "debounce_run func wait w evs = foldl (debounce_step func wait) w evs"

subsection \<open>Vocabulary of the claims about the wrappers\<close>

text \<open>The time that passes during a list of events.\<close>

fun elapsed :: "event list \<Rightarrow> nat" where
  "elapsed [] = 0"
| "elapsed (Call _ _ # evs) = elapsed evs"
| "elapsed (Advance dt # evs) = dt + elapsed evs"

text \<open>How many invocations fall into the window that starts at \<open>s\<close> and is \<open>len\<close>
  milliseconds long (the start included, the end excluded).\<close>

definition invocations_in :: "nat \<Rightarrow> nat \<Rightarrow> 'a call_scheme list \<Rightarrow> nat" where
  "invocations_in s len cs = length (filter (\<lambda>c. s \<le> at c \<and> at c < s + len) cs)"

text \<open>A behaviour that ends by returning, however the calls it makes to the wrapper
  complete.\<close>

primrec returns :: "behaviour \<Rightarrow> bool" where
  "returns (Finish c) = (\<exists>r. c = Return r)"
| "returns (Reenter this args continue) = (\<forall>c. returns (continue c))"

text \<open>A callback that returns normally whenever it is called.\<close>

definition never_throws :: "reentrant_callback \<Rightarrow> bool" where
  "never_throws func = (\<forall>t log this args. returns (func t log this args))"

text \<open>A callback that never calls its own wrapper while it runs.\<close>

definition never_reenters :: "reentrant_callback \<Rightarrow> bool" where
  "never_reenters func = (\<forall>t log this args. \<exists>c. func t log this args = Finish c)"

text \<open>Calls at a fixed spacing: the first at once, each further one \<open>gap\<close> milliseconds
  after the one before.\<close>

fun every :: "nat \<Rightarrow> (jsval \<times> jsval list) list \<Rightarrow> event list" where
  "every gap [] = []"
| "every gap [(this, args)] = [Call this args]"
| "every gap ((this, args) # rest) = Call this args # Advance gap # every gap rest"

text \<open>A burst: calls, each followed by the pause before the next call.\<close>

fun burst :: "(jsval \<times> jsval list \<times> nat) list \<Rightarrow> event list" where
  "burst [] = []"
| "burst ((this, args, gap) # rest) = Call this args # Advance gap # burst rest"

text \<open>The time a burst takes.\<close>

fun pauses :: "(jsval \<times> jsval list \<times> nat) list \<Rightarrow> nat" where
  "pauses [] = 0"
| "pauses ((this, args, gap) # rest) = gap + pauses rest"

subsection \<open>Invariants of a throttled wrapper\<close>

text \<open>The lock is set exactly while a release is pending, and all pending releases are
  due at one time, within the interval.\<close>

definition throttle_inv :: "nat \<Rightarrow> throttle_state \<Rightarrow> bool" where
  "throttle_inv T w =
     ((truthy (inThrottle w) \<longleftrightarrow> pending w \<noteq> [])
      \<and> (\<exists>e. clock w \<le> e \<and> e \<le> clock w + T \<and> (\<forall>t\<in>set (pending w). due t = e)))"

text \<open>The same during one call of the wrapper, where every release scheduled is due a
  full interval ahead.\<close>

definition armed :: "nat \<Rightarrow> throttle_state \<Rightarrow> bool" where
  "armed T w =
     ((truthy (inThrottle w) \<longleftrightarrow> pending w \<noteq> [])
      \<and> (\<forall>t\<in>set (pending w). due t = clock w + T))"

text \<open>What a call of the wrapper, nested calls included, can do to the state: time
  stands still, invocations and timers are only added.\<close>

definition extends :: "nat \<Rightarrow> throttle_state \<Rightarrow> throttle_state \<Rightarrow> bool" where
  "extends T w w' =
     (clock w' = clock w \<and> prefix (calls w) (calls w') \<and> prefix (pending w) (pending w')
      \<and> (armed T w \<longrightarrow> armed T w'))"

text \<open>For a callback that does not call its wrapper: at most one release is pending.\<close>

definition single_inv :: "nat \<Rightarrow> throttle_state \<Rightarrow> bool" where
  "single_inv T w =
     (if truthy (inThrottle w)
      then \<exists>t. pending w = [t] \<and> clock w \<le> due t \<and> due t \<le> clock w + T
      else pending w = [])"

text \<open>The time from which the next invocation is possible: the due time of the pending
  release, or now when nothing is pending.\<close>

definition horizon :: "('cb, 'e, 'm) host_scheme \<Rightarrow> nat" where
  "horizon h = (case pending h of [] \<Rightarrow> clock h | t # _ \<Rightarrow> due t)"

text \<open>Every invocation so far lies a full interval before the horizon, no window of
  the interval's length holds two of them, and their number is bounded by the horizon.\<close>

definition rate_inv :: "nat \<Rightarrow> throttle_state \<Rightarrow> bool" where
  "rate_inv T w =
     ((\<forall>c\<in>set (calls w). at c + T \<le> horizon w)
      \<and> (\<forall>s. invocations_in s T (calls w) \<le> 1)
      \<and> length (calls w) * T \<le> horizon w)"

subsection \<open>Invariant of a debounced wrapper\<close>

text \<open>At most one timer is pending, and it is the one whose handle \<^verbatim>\<open>timeout\<close>
  holds.\<close>

definition debounce_inv :: "debounce_state \<Rightarrow> bool" where
  "debounce_inv w =
     (pending w = []
      \<or> (\<exists>t. pending w = [t] \<and> timeout w = Number (int (handle t)) \<and> clock w \<le> due t))"

subsection \<open>Facts about the listener\<close>

lemma feed_Nil: "feed p [] = p"
  by (simp add: feed_def)

lemma feed_snoc: "feed p (keys @ [k]) = keydown (feed p keys) k"
  by (simp add: feed_def)

lemma feed_append: "feed p (ks @ ls) = feed (feed p ks) ls"
  by (simp add: feed_def)

lemma konamiCode_activate: "konamiCode (activate p) = konamiCode p"
  by (simp add: activate_def)

lemma konamiCode_keydown: "konamiCode (keydown p k) = record_key (konamiCode p) k"
  by (simp add: keydown_def Let_def konamiCode_activate)

lemma alerts_keydown:
  "alerts (keydown p k) =
     alerts p + (if join (record_key (konamiCode p) k) = konami_string then 1 else 0)"
  by (simp add: keydown_def Let_def activate_def)

lemma shift_drop: "shift xs = drop 1 xs"
  by (cases xs) (simp_all add: shift_def)

lemma record_key_window:
  assumes "length buf \<le> 10"
  shows "record_key buf k = drop (length (buf @ [k]) - 10) (buf @ [k])"
proof (cases "length buf = 10")
  case True
  then show ?thesis
    by (simp add: record_key_def push_def shift_drop)
next
  case False
  with assms have "length buf < 10" by simp
  then show ?thesis
    by (simp add: record_key_def push_def)
qed

lemma window_snoc: "record_key (window keys) k = window (keys @ [k])"
proof -
  have "length (window keys) \<le> 10"
    by (simp add: window_def)
  then have "record_key (window keys) k
      = drop (length (window keys @ [k]) - 10) (window keys @ [k])"
    by (rule record_key_window)
  also have "\<dots> = window (keys @ [k])"
  proof (cases "length keys < 10")
    case True
    then show ?thesis by (simp add: window_def)
  next
    case False
    then have "length (window keys) = 10" and "Suc (length keys - 10) = length keys - 9"
      by (simp_all add: window_def)
    then have "drop (length (window keys @ [k]) - 10) (window keys @ [k])
        = drop 1 (window keys) @ [k]"
      by simp
    also have "\<dots> = drop (length keys - 9) keys @ [k]"
      using \<open>Suc (length keys - 10) = length keys - 9\<close> by (simp add: window_def)
    also have "\<dots> = window (keys @ [k])"
      using False by (simp add: window_def)
    finally show ?thesis .
  qed
  finally show ?thesis .
qed

lemma konamiCode_feed_window:
  assumes "length (konamiCode p) \<le> 10"
  shows "konamiCode (feed p keys) = window (konamiCode p @ keys)"
proof (induction keys rule: rev_induct)
  case Nil
  from assms show ?case by (simp add: feed_Nil window_def)
next
  case (snoc k keys)
  have "konamiCode (feed p (keys @ [k])) = record_key (window (konamiCode p @ keys)) k"
    by (simp add: feed_snoc konamiCode_keydown snoc.IH)
  then show ?case
    by (simp add: window_snoc)
qed

lemma alerts_feed:
  assumes "length (konamiCode p) \<le> 10"
  shows "alerts (feed p keys) = alerts p +
     length (filter (\<lambda>n. join (window (konamiCode p @ take n keys)) = konami_string)
        [1..<Suc (length keys)])"
proof (induction keys rule: rev_induct)
  case Nil
  show ?case by (simp add: feed_Nil)
next
  case (snoc k keys)
  let ?hit = "\<lambda>ks n. join (window (konamiCode p @ take n ks)) = konami_string"
  have step: "alerts (feed p (keys @ [k])) =
      alerts (feed p keys) + (if ?hit (keys @ [k]) (Suc (length keys)) then 1 else 0)"
    by (simp add: feed_snoc alerts_keydown konamiCode_feed_window[OF assms] window_snoc)
  have same: "filter (?hit (keys @ [k])) [1..<Suc (length keys)]
      = filter (?hit keys) [1..<Suc (length keys)]"
    by (rule filter_cong) auto
  have "[1..<Suc (length (keys @ [k]))] = [1..<Suc (length keys)] @ [Suc (length keys)]"
    by simp
  then have "length (filter (?hit (keys @ [k])) [1..<Suc (length (keys @ [k]))])
      = length (filter (?hit keys) [1..<Suc (length keys)])
        + (if ?hit (keys @ [k]) (Suc (length keys)) then 1 else 0)"
    using same by simp
  with step snoc.IH show ?case by simp
qed

lemma konami_keys_length: "length konami_keys = 10"
  by (simp add: konami_keys_def)

lemma join_konami_keys: "join konami_keys = konami_string"
  by (simp add: konami_keys_def join_def konami_string_def)

lemma konami_keys_inner:
  "m < 9 \<Longrightarrow> konami_keys ! m \<noteq> [] \<and> last (konami_keys ! m) \<noteq> CHR ''a''"
proof -
  assume "m < 9"
  then have "konami_keys ! m \<in> set (butlast konami_keys)"
    using nth_mem [of m "butlast konami_keys"]
    by (simp add: nth_butlast konami_keys_length)
  moreover have "\<forall>x\<in>set (butlast konami_keys). x \<noteq> [] \<and> last x \<noteq> CHR ''a''"
    by (simp add: konami_keys_def)
  ultimately show ?thesis by blast
qed

lemma last_konami_string: "last konami_string = CHR ''a''"
  by (simp add: konami_string_def)

lemma join_append: "join (xs @ ys) = join xs @ join ys"
  by (simp add: join_def)

lemma join_snoc_last:
  assumes "x \<noteq> []"
  shows "last (join (xs @ [x])) = last x"
  using assms by (simp add: join_def)

lemma altered_prefix_match:
  assumes i: "i < 10" and k: "k \<noteq> konami_keys ! i" and n: "0 < n" "n \<le> 10"
  shows "join (take n (konami_keys[i := k])) = konami_string
     \<longleftrightarrow> n = Suc i \<and> k = join (drop i konami_keys)"
proof -
  let ?T = konami_keys
  let ?ks = "?T[i := k]"
  have split: "konami_string = join (take i ?T) @ join (drop i ?T)"
    by (simp add: join_konami_keys [symmetric] join_append [symmetric])
  show ?thesis
  proof (cases "n = Suc i")
    case True
    have "take (Suc i) ?ks = take i ?T @ [k]"
      using i by (simp add: take_Suc_conv_app_nth konami_keys_length)
    then have "join (take n ?ks) = join (take i ?T) @ k"
      using True by (simp add: join_def)
    then show ?thesis
      using True by (simp add: split)
  next
    case False
    have "join (take n ?ks) \<noteq> konami_string"
    proof (cases "n = 10")
      case True
      with False i have "i < 9" by simp
      have Tsplit: "?T = take i ?T @ (?T ! i) # drop (Suc i) ?T"
        using i by (simp add: id_take_nth_drop konami_keys_length)
      have "?ks = take i ?T @ k # drop (Suc i) ?T"
        using i by (simp add: upd_conv_take_nth_drop konami_keys_length)
      moreover have "take n ?ks = ?ks"
        using True by (simp add: konami_keys_length)
      ultimately have a: "join (take n ?ks) = join (take i ?T) @ k @ join (drop (Suc i) ?T)"
        by (simp add: join_def)
      have b: "konami_string = join (take i ?T) @ (?T ! i) @ join (drop (Suc i) ?T)"
        by (subst join_konami_keys [symmetric], subst Tsplit) (simp add: join_def)
      have "(join (take n ?ks) = konami_string) = (k = ?T ! i)"
        unfolding a b by simp
      with k show ?thesis by simp
    next
      case n10: False
      obtain m where m: "n = Suc m"
        using n(1) by (cases n) simp_all
      with n n10 False have "m < 9" "m \<noteq> i" by simp_all
      then have "take n ?ks = take m ?ks @ [?T ! m]"
        using m by (simp add: take_Suc_conv_app_nth konami_keys_length)
      moreover have "?T ! m \<noteq> []" "last (?T ! m) \<noteq> CHR ''a''"
        using konami_keys_inner [OF \<open>m < 9\<close>] by simp_all
      ultimately have "last (join (take n ?ks)) \<noteq> CHR ''a''"
        by (simp add: join_snoc_last)
      then show ?thesis
        using last_konami_string by auto
    qed
    with False show ?thesis by simp
  qed
qed

lemma filter_eq_upt:
  "filter (\<lambda>n. n = x) [a..<b] = (if a \<le> x \<and> x < b then [x] else [])"
  by (induction b) auto

lemma altered_alerts:
  assumes i: "i < 10" and k: "k \<noteq> konami_keys ! i"
  shows "alerts (feed page_init (konami_keys[i := k]))
     = (if k = join (drop i konami_keys) then 1 else 0)"
proof -
  let ?ks = "konami_keys[i := k]"
  have "alerts (feed page_init ?ks)
      = length (filter (\<lambda>n. join (window (take n ?ks)) = konami_string) [1..<11])"
    using alerts_feed [of page_init ?ks]
    by (simp add: page_init_def konami_keys_length)
  also have "filter (\<lambda>n. join (window (take n ?ks)) = konami_string) [1..<11]
      = filter (\<lambda>n. n = Suc i \<and> k = join (drop i konami_keys)) [1..<11]"
  proof (rule filter_cong [OF refl])
    fix n assume "n \<in> set [1..<11]"
    then have n: "0 < n" "n \<le> 10" by simp_all
    then have "window (take n ?ks) = take n ?ks"
      by (simp add: window_def konami_keys_length)
    then show "(join (window (take n ?ks)) = konami_string)
        = (n = Suc i \<and> k = join (drop i konami_keys))"
      using altered_prefix_match [OF i k n] by simp
  qed
  also have "length \<dots> = (if k = join (drop i konami_keys) then 1 else 0)"
  proof (cases "k = join (drop i konami_keys)")
    case True
    have "filter (\<lambda>n. n = Suc i) [1..<11] = [Suc i]"
      using i by (simp add: filter_eq_upt)
    with True show ?thesis by simp
  next
    case False
    then show ?thesis by simp
  qed
  finally show ?thesis .
qed

subsection \<open>Claims about the listener\<close>

text \<open>
  Claim C3. Whatever stream of keys is dispatched, starting from the empty buffer, the
  buffer holds at most ten keys after every event; it is the window of the last (at most)
  ten keys of the stream, oldest first. One event appends the key, drops the oldest key
  when that made eleven, and then raises the alert exactly when the joined buffer equals
  the target string. The stream \<open>keys\<close> is arbitrary, so the bound holds after each of
  its events.
\<close>

theorem konami_buffer_bounded:
  "konamiCode page_init = []
   \<and> length (konamiCode (feed page_init keys)) \<le> 10
   \<and> konamiCode (feed page_init keys) = window keys
   \<and> konamiCode (keydown p k)
       = (let pushed = konamiCode p @ [k] in if 10 < length pushed then tl pushed else pushed)
   \<and> alerts (keydown p k)
       = alerts p + (if concat (konamiCode (keydown p k)) = konami_string then 1 else 0)"
proof -
  have init: "konamiCode page_init = []"
    by (simp add: page_init_def)
  then have win: "konamiCode (feed page_init keys) = window keys"
    using konamiCode_feed_window [of page_init keys] by simp
  have bound: "length (window keys) \<le> 10"
    by (simp add: window_def)
  have trim: "konamiCode (keydown p k)
      = (let pushed = konamiCode p @ [k] in if 10 < length pushed then tl pushed else pushed)"
    by (cases "konamiCode p") (simp_all add: konamiCode_keydown record_key_def push_def shift_def Let_def)
  have cmp: "alerts (keydown p k)
      = alerts p + (if concat (konamiCode (keydown p k)) = konami_string then 1 else 0)"
    by (simp add: alerts_keydown konamiCode_keydown join_def)
  from init win bound trim cmp show ?thesis by simp
qed

text \<open>
  Claim C4, as amended. From the empty buffer the ten target keys raise exactly one alert.
  With the key at position \<open>i\<close> replaced by a different key \<open>k\<close>, the complete ten-key
  buffer never matches, and no alert is raised at all unless \<open>k\<close> is itself the
  concatenation of the target keys from position \<open>i\<close> on; then exactly one alert is
  raised (at that very key press, on a buffer of fewer than ten keys).
\<close>

theorem konami_single_alteration:
  assumes "i < 10" and "k \<noteq> konami_keys ! i"
  shows "alerts (feed page_init konami_keys) = 1
     \<and> alerts (feed page_init (konami_keys[i := k]))
         = (if k = join (drop i konami_keys) then 1 else 0)
     \<and> join (konamiCode (feed page_init (konami_keys[i := k]))) \<noteq> konami_string"
proof -
  have exact: "alerts (feed page_init konami_keys) = 1"
    by (simp add: feed_def keydown_def record_key_def push_def shift_def join_def
        konami_string_def page_init_def activate_def konami_keys_def)
  have "konamiCode (feed page_init (konami_keys[i := k])) = window (konami_keys[i := k])"
    using konamiCode_feed_window [of page_init] by (simp add: page_init_def)
  also have "\<dots> = take 10 (konami_keys[i := k])"
    by (simp add: window_def konami_keys_length)
  finally have buf: "konamiCode (feed page_init (konami_keys[i := k]))
      = take 10 (konami_keys[i := k])" .
  have "join (drop 9 konami_keys) = konami_keys ! 9"
    by (simp add: konami_keys_def join_def)
  with assms have "\<not> (10 = Suc i \<and> k = join (drop i konami_keys))"
    by auto
  then have "join (konamiCode (feed page_init (konami_keys[i := k]))) \<noteq> konami_string"
    using altered_prefix_match [OF assms, of 10] by (simp add: buf)
  with exact altered_alerts [OF assms] show ?thesis by simp
qed

text \<open>The amended claim at position 0 with the key \<open>Enter\<close>: no alert.\<close>

theorem konami_single_alteration_witness:
  "(0::nat) < 10 \<and> ''Enter'' \<noteq> konami_keys ! 0
   \<and> alerts (feed page_init (konami_keys[0 := ''Enter''])) = 0"
  using konami_single_alteration [of 0 "''Enter''"]
  by (simp add: konami_keys_def join_def)

text \<open>
  Claim C4 as stated fails: replacing the ninth key \<open>b\<close> by the different key
  \<open>ba\<close> still raises an alert, at the ninth key press, because the listener compares the
  joined buffer.
\<close>

theorem konami_single_alteration_counterexample:
  "''ba'' \<noteq> konami_keys ! 8 \<and> alerts (feed page_init (konami_keys[8 := ''ba''])) = 1"
  by (simp add: feed_def keydown_def record_key_def push_def shift_def join_def
      konami_string_def page_init_def activate_def konami_keys_def)

text \<open>
  Claim C8, as amended. The matching branch does not touch the buffer: after any event,
  matching or not, the buffer is the trimmed window of the keys pressed so far, which
  holds all of them while they are fewer than ten and the last ten from then on, and
  after a matching event it still joins to the target. Later alerts are therefore
  decided by the sliding window alone: after the
  stream \<open>keys\<close>, the \<open>n\<close>-th further key raises an alert exactly when the window of
  \<open>keys\<close> followed by the first \<open>n\<close> further keys joins to the target.
\<close>

theorem konami_match_keeps_buffer:
  "konamiCode (activate p) = konamiCode p
   \<and> konamiCode (keydown p k) = record_key (konamiCode p) k
   \<and> (alerts (keydown p k) \<noteq> alerts p \<longrightarrow>
        join (konamiCode (keydown p k)) = konami_string \<and> konamiCode (keydown p k) \<noteq> [])
   \<and> konamiCode (feed (feed page_init keys) rest) = window (keys @ rest)
   \<and> length (window (keys @ rest)) = min (length (keys @ rest)) 10
   \<and> alerts (feed (feed page_init keys) rest)
       = alerts (feed page_init keys)
         + length (filter (\<lambda>n. join (window (keys @ take n rest)) = konami_string)
             [1..<Suc (length rest)])"
proof -
  have hit: "alerts (keydown p k) \<noteq> alerts p \<longrightarrow>
      join (konamiCode (keydown p k)) = konami_string \<and> konamiCode (keydown p k) \<noteq> []"
    by (auto simp: alerts_keydown konamiCode_keydown join_def konami_string_def
        split: if_splits)
  have start: "konamiCode page_init = []"
    by (simp add: page_init_def)
  have win: "konamiCode (feed page_init keys) = window keys" for keys
    using konamiCode_feed_window [of page_init keys] start by simp
  have "konamiCode (feed (feed page_init keys) rest) = window (keys @ rest)"
    using win [of "keys @ rest"] by (simp add: feed_append)
  moreover have "alerts (feed (feed page_init keys) rest)
       = alerts (feed page_init keys)
         + length (filter (\<lambda>n. join (window (keys @ take n rest)) = konami_string)
             [1..<Suc (length rest)])"
  proof -
    have short: "length (konamiCode (feed page_init keys)) \<le> 10"
      by (simp add: win window_def)
    have slide: "window (window keys @ ks) = window (keys @ ks)" for ks
      using konamiCode_feed_window [OF short, of ks] win [of "keys @ ks"]
      by (simp add: feed_append win)
    show ?thesis
      using alerts_feed [OF short, of rest] by (simp add: win slide)
  qed
  moreover have "length (window (keys @ rest)) = min (length (keys @ rest)) 10"
    by (simp add: window_def)
  ultimately show ?thesis
    using hit by (simp add: konamiCode_activate konamiCode_keydown)
qed

text \<open>
  The claim at work: the last target key completes a match and leaves the ten keys in
  the buffer; and a window that slides back onto the target signals again, here after
  the nine-key stream whose first key is \<open>ArrowUpArrowUp\<close>, followed by the empty key.
\<close>

theorem konami_match_keeps_buffer_witness:
  "alerts (keydown (feed page_init (butlast konami_keys)) ''a'')
     \<noteq> alerts (feed page_init (butlast konami_keys))
   \<and> konamiCode (keydown (feed page_init (butlast konami_keys)) ''a'') = konami_keys
   \<and> alerts (feed (feed page_init (''ArrowUpArrowUp'' # drop 2 konami_keys)) ['''']) = 2"
  using konami_match_keeps_buffer
    [of "feed page_init (butlast konami_keys)" "''a''" "''ArrowUpArrowUp'' # drop 2 konami_keys"
      "['''']"]
  by (simp add: feed_def keydown_def record_key_def push_def shift_def join_def
      konami_string_def page_init_def activate_def konami_keys_def window_def)

text \<open>
  Claim C8 as stated fails where it says that the buffer after a matching event holds
  ten keys. The first eight target keys followed by the key \<open>ba\<close> match at the ninth
  key press, and the buffer then holds nine keys; a single key that is the whole target
  string matches on a buffer of one key.
\<close>

theorem konami_match_keeps_buffer_counterexample:
  "alerts (keydown (feed page_init (take 8 konami_keys)) ''ba'')
     \<noteq> alerts (feed page_init (take 8 konami_keys))
   \<and> length (konamiCode (keydown (feed page_init (take 8 konami_keys)) ''ba'')) = 9
   \<and> alerts (keydown page_init konami_string) \<noteq> alerts page_init
   \<and> length (konamiCode (keydown page_init konami_string)) = 1"
  by (simp add: feed_def keydown_def record_key_def push_def shift_def join_def
      konami_string_def page_init_def activate_def konami_keys_def)

text \<open>
  Claim C9. The ten keys \<open>Arrow, Up, ArrowUp, ArrowDown, ArrowDown, ArrowLeft, ArrowRight,
  ArrowLeft, ArrowRight, ba\<close> differ from the target sequence in the first, second and last
  position, yet their tenth key press raises the alert, because their concatenation is the
  target string.
\<close>

theorem konami_join_collision:
  "length [''Arrow'', ''Up'', ''ArrowUp'', ''ArrowDown'', ''ArrowDown'', ''ArrowLeft'',
        ''ArrowRight'', ''ArrowLeft'', ''ArrowRight'', ''ba''] = length konami_keys
   \<and> [''Arrow'', ''Up'', ''ArrowUp'', ''ArrowDown'', ''ArrowDown'', ''ArrowLeft'',
        ''ArrowRight'', ''ArrowLeft'', ''ArrowRight'', ''ba''] \<noteq> konami_keys
   \<and> alerts (feed page_init [''Arrow'', ''Up'', ''ArrowUp'', ''ArrowDown'', ''ArrowDown'',
        ''ArrowLeft'', ''ArrowRight'', ''ArrowLeft'', ''ArrowRight'']) = 0
   \<and> alerts (feed page_init [''Arrow'', ''Up'', ''ArrowUp'', ''ArrowDown'', ''ArrowDown'',
        ''ArrowLeft'', ''ArrowRight'', ''ArrowLeft'', ''ArrowRight'', ''ba'']) = 1"
  by (simp add: feed_def keydown_def record_key_def push_def shift_def join_def
      konami_string_def page_init_def activate_def konami_keys_def)

subsection \<open>Facts about throttle\<close>

lemma throttle_timers_idle: "pending w = [] \<Longrightarrow> throttle_timers until w = w"
  by (subst throttle_timers.simps) simp

lemma throttle_timers_wait:
  assumes "\<forall>t\<in>set (pending w). until < due t"
  shows "throttle_timers until w = w"
proof (cases "earliest (pending w)")
  case None
  then show ?thesis by (subst throttle_timers.simps) simp
next
  case (Some t)
  with assms have "until < due t" by (simp add: earliest_mem)
  with Some show ?thesis by (subst throttle_timers.simps) simp
qed

lemma earliest_None: "earliest ts = None \<longleftrightarrow> ts = []"
  by (cases ts) (simp_all split: option.splits)

lemma throttle_timers_fire:
  "pending w \<noteq> [] \<Longrightarrow> \<forall>t\<in>set (pending w). due t = e \<Longrightarrow> e \<le> until \<Longrightarrow>
   throttle_timers until w
     = w\<lparr>clock := max (clock w) e, pending := [], inThrottle := Boolean False\<rparr>"
proof (induction "length (pending w)" arbitrary: w rule: less_induct)
  case less
  from less.prems(1) obtain t where t: "earliest (pending w) = Some t"
    by (cases "earliest (pending w)") (simp_all add: earliest_None)
  then have mem: "t \<in> set (pending w)" by (rule earliest_mem)
  with less.prems have due: "due t = e" "due t \<le> until" by simp_all
  let ?rest = "filter (\<lambda>u. handle u \<noteq> handle t) (pending w)"
  let ?w = "unlock (w\<lparr>clock := max (clock w) (due t), pending := ?rest\<rparr>)"
  have step: "throttle_timers until w = throttle_timers until ?w"
    using t due by (subst throttle_timers.simps) simp
  show ?case
  proof (cases "?rest = []")
    case True
    then have "throttle_timers until ?w = ?w"
      by (intro throttle_timers_idle) (simp add: unlock_def)
    with step True due show ?thesis by (simp add: unlock_def)
  next
    case False
    have "throttle_timers until ?w
        = ?w\<lparr>clock := max (clock ?w) e, pending := [], inThrottle := Boolean False\<rparr>"
    proof (rule less.hyps)
      show "length (pending ?w) < length (pending w)"
        using t by (simp add: unlock_def length_filter_handle)
      show "pending ?w \<noteq> []" using False by (simp add: unlock_def)
      show "\<forall>u\<in>set (pending ?w). due u = e" using less.prems(2) by (simp add: unlock_def)
      show "e \<le> until" by (rule less.prems(3))
    qed
    with step due show ?thesis by (simp add: unlock_def)
  qed
qed

lemma calls_throttle_timers: "calls (throttle_timers until w) = calls w"
proof (induction until w rule: throttle_timers.induct)
  case (1 until w)
  show ?case
  proof (cases "earliest (pending w)")
    case None
    then show ?thesis by (subst throttle_timers.simps) simp
  next
    case (Some t)
    show ?thesis
    proof (cases "due t \<le> until")
      case True
      with Some 1 show ?thesis
        by (subst throttle_timers.simps) (simp add: unlock_def)
    next
      case False
      with Some show ?thesis by (subst throttle_timers.simps) simp
    qed
  qed
qed

lemma calls_throttle_advance: "calls (throttle_advance dt w) = calls w"
  by (simp add: throttle_advance_def calls_throttle_timers)

lemma clock_throttle_advance: "clock (throttle_advance dt w) = clock w + dt"
  by (simp add: throttle_advance_def)

lemma throttle_advance_idle:
  "pending w = [] \<Longrightarrow> throttle_advance dt w = w\<lparr>clock := clock w + dt\<rparr>"
  by (simp add: throttle_advance_def throttle_timers_idle)

lemma throttle_advance_wait:
  "\<forall>t\<in>set (pending w). clock w + dt < due t \<Longrightarrow>
   throttle_advance dt w = w\<lparr>clock := clock w + dt\<rparr>"
  by (simp add: throttle_advance_def throttle_timers_wait)

lemma throttle_advance_fire:
  "pending w \<noteq> [] \<Longrightarrow> \<forall>t\<in>set (pending w). due t = e \<Longrightarrow> e \<le> clock w + dt \<Longrightarrow>
   throttle_advance dt w
     = w\<lparr>clock := clock w + dt, pending := [], inThrottle := Boolean False\<rparr>"
  using throttle_timers_fire [of w e "clock w + dt"] by (simp add: throttle_advance_def)

text \<open>One call of the wrapper.\<close>

lemma throttled_unfold:
  "throttled depth func limit
     = throttled_body (case depth of 0 \<Rightarrow> overflow | Suc d \<Rightarrow> throttled d func limit)
         func limit"
  by (cases depth) simp_all

lemma throttled_locked:
  "truthy (inThrottle w) \<Longrightarrow> throttled depth func limit this args w = (w, Return Undefined)"
  by (simp add: throttled_unfold [of depth] throttled_body_def)

lemma throttled_throw:
  assumes "\<not> truthy (inThrottle w)"
    and "func (clock w) (calls w) (this_binding this) args = Finish (Throw e)"
  shows "throttled depth func limit this args w
     = (w\<lparr>calls := calls w @
           [\<lparr>at = clock w, receiver = this_binding this, arguments = args\<rparr>]\<rparr>,
        Throw e)"
  using assms by (simp add: throttled_unfold [of depth] throttled_body_def Let_def)

lemma throttled_return:
  assumes "\<not> truthy (inThrottle w)"
    and "func (clock w) (calls w) (this_binding this) args = Finish (Return r)"
  shows "throttled depth func limit this args w
     = (w\<lparr>calls := calls w @
           [\<lparr>at = clock w, receiver = this_binding this, arguments = args\<rparr>],
          inThrottle := Boolean True,
          nextHandle := Suc (nextHandle w),
          pending := pending w @
           [\<lparr>handle = nextHandle w, due = clock w + limit, callback = ()\<rparr>]\<rparr>,
        Return Undefined)"
  using assms
  by (simp add: throttled_unfold [of depth] throttled_body_def setTimeout_def Let_def)

lemma throttled_value:
  "snd (throttled depth func limit this args w) = Return v \<Longrightarrow> v = Undefined"
  by (auto simp: throttled_unfold [of depth] throttled_body_def setTimeout_def Let_def
      split: if_splits prod.splits completion.splits)

text \<open>A call only adds to the state, whatever the callback does.\<close>

lemma extends_refl: "extends T w w"
  by (simp add: extends_def)

lemma extends_trans: "extends T w w1 \<Longrightarrow> extends T w1 w2 \<Longrightarrow> extends T w w2"
  by (auto simp: extends_def intro: prefix_order.trans)

lemma perform_extends:
  assumes "\<And>this args w. extends T w (fst (inner this args w))"
  shows "extends T w (fst (perform inner b w))"
proof (induction b arbitrary: w)
  case (Finish c)
  show ?case by (simp add: extends_refl)
next
  case (Reenter this args continue)
  obtain w1 c where call: "inner this args w = (w1, c)"
    by (cases "inner this args w")
  with assms [of w this args] have "extends T w w1" by simp
  moreover have "extends T w1 (fst (perform inner (continue c) w1))"
    by (rule Reenter.IH) simp
  ultimately show ?case
    using call by (simp add: extends_trans)
qed

lemma extends_started:
  "extends T w (w\<lparr>calls := calls w @ [c]\<rparr>)"
  by (simp add: extends_def armed_def)

lemma extends_locked:
  "extends T w
     (w\<lparr>inThrottle := Boolean True, nextHandle := n,
        pending := pending w @ [\<lparr>handle = m, due = clock w + T, callback = ()\<rparr>]\<rparr>)"
  by (auto simp: extends_def armed_def)

lemma throttled_body_extends:
  assumes "\<And>this args w. extends T w (fst (inner this args w))"
  shows "extends T w (fst (throttled_body inner func T this args w))"
proof (cases "truthy (inThrottle w)")
  case True
  then show ?thesis by (simp add: throttled_body_def extends_refl)
next
  case False
  let ?c = "\<lparr>at = clock w, receiver = this_binding this, arguments = args\<rparr>"
  let ?s = "w\<lparr>calls := calls w @ [?c]\<rparr>"
  let ?b = "func (clock w) (calls w) (this_binding this) args"
  obtain w1 c where run: "perform inner ?b ?s = (w1, c)"
    by (cases "perform inner ?b ?s")
  have "extends T ?s (fst (perform inner ?b ?s))"
    using assms by (rule perform_extends)
  with run have "extends T ?s w1" by simp
  with extends_started [of T w ?c] have w1: "extends T w w1"
    by (rule extends_trans)
  show ?thesis
  proof (cases c)
    case (Throw e)
    with False run w1 show ?thesis by (simp add: throttled_body_def Let_def)
  next
    case (Return r)
    have "extends T w1
        (w1\<lparr>inThrottle := Boolean True, nextHandle := Suc (nextHandle w1),
            pending := pending w1 @
              [\<lparr>handle = nextHandle w1, due = clock w1 + T, callback = ()\<rparr>]\<rparr>)"
      by (rule extends_locked)
    with w1 have "extends T w
        (w1\<lparr>inThrottle := Boolean True, nextHandle := Suc (nextHandle w1),
            pending := pending w1 @
              [\<lparr>handle = nextHandle w1, due = clock w1 + T, callback = ()\<rparr>]\<rparr>)"
      by (rule extends_trans)
    with False run Return show ?thesis
      by (simp add: throttled_body_def setTimeout_def Let_def)
  qed
qed

lemma throttled_extends: "extends T w (fst (throttled depth func T this args w))"
proof (induction depth arbitrary: this args w)
  case 0
  show ?case
    by (simp, rule throttled_body_extends) (simp add: overflow_def extends_refl)
next
  case (Suc depth)
  show ?case
    by (simp, rule throttled_body_extends) (rule Suc.IH)
qed

lemma clock_throttled: "clock (fst (throttled depth func limit this args w)) = clock w"
  using throttled_extends [of limit w depth func this args] by (simp add: extends_def)

lemma pending_throttled:
  "prefix (pending w) (pending (fst (throttled depth func limit this args w)))"
  using throttled_extends [of limit w depth func this args] by (simp add: extends_def)

text \<open>A callback that returns leaves the wrapper locked, with its own invocation the
  first that the call added.\<close>

lemma perform_returns: "returns b \<Longrightarrow> \<exists>r. snd (perform inner b w) = Return r"
proof (induction b arbitrary: w)
  case (Finish c)
  then show ?case by auto
next
  case (Reenter this args continue)
  obtain w1 c where call: "inner this args w = (w1, c)"
    by (cases "inner this args w")
  from Reenter.prems have "returns (continue c)" by simp
  then have "\<exists>r. snd (perform inner (continue c) w1) = Return r"
    by (intro Reenter.IH) simp_all
  with call show ?case by simp
qed

lemma throttled_returns:
  assumes free: "\<not> truthy (inThrottle w)"
    and ret: "returns (func (clock w) (calls w) (this_binding this) args)"
  shows "snd (throttled depth func T this args w) = Return Undefined"
    and "truthy (inThrottle (fst (throttled depth func T this args w)))"
    and "pending (fst (throttled depth func T this args w)) \<noteq> []"
proof -
  let ?inner = "case depth of 0 \<Rightarrow> overflow | Suc d \<Rightarrow> throttled d func T"
  let ?s = "w\<lparr>calls := calls w @
      [\<lparr>at = clock w, receiver = this_binding this, arguments = args\<rparr>]\<rparr>"
  let ?b = "func (clock w) (calls w) (this_binding this) args"
  obtain w1 c where run: "perform ?inner ?b ?s = (w1, c)"
    by (cases "perform ?inner ?b ?s")
  from perform_returns [OF ret, of ?inner ?s] run obtain r where "c = Return r"
    by auto
  with free run
  have "throttled depth func T this args w
      = (w1\<lparr>inThrottle := Boolean True, nextHandle := Suc (nextHandle w1),
            pending := pending w1 @
              [\<lparr>handle = nextHandle w1, due = clock w1 + T, callback = ()\<rparr>]\<rparr>,
         Return Undefined)"
    by (simp add: throttled_unfold [of depth] throttled_body_def setTimeout_def Let_def)
  then show "snd (throttled depth func T this args w) = Return Undefined"
    and "truthy (inThrottle (fst (throttled depth func T this args w)))"
    and "pending (fst (throttled depth func T this args w)) \<noteq> []"
    by simp_all
qed

lemma throttled_first:
  assumes "\<not> truthy (inThrottle w)"
  shows "prefix (calls w @ [\<lparr>at = clock w, receiver = this_binding this, arguments = args\<rparr>])
           (calls (fst (throttled depth func T this args w)))"
proof -
  let ?inner = "case depth of 0 \<Rightarrow> overflow | Suc d \<Rightarrow> throttled d func T"
  let ?s = "w\<lparr>calls := calls w @
      [\<lparr>at = clock w, receiver = this_binding this, arguments = args\<rparr>]\<rparr>"
  let ?b = "func (clock w) (calls w) (this_binding this) args"
  have inner: "extends T v (fst (?inner this' args' v))" for this' args' v
    by (cases depth) (simp_all add: overflow_def extends_refl throttled_extends)
  obtain w1 c where run: "perform ?inner ?b ?s = (w1, c)"
    by (cases "perform ?inner ?b ?s")
  have "extends T ?s (fst (perform ?inner ?b ?s))"
    using inner by (rule perform_extends)
  with run have "prefix (calls ?s) (calls w1)"
    by (simp add: extends_def)
  moreover have "calls (fst (throttled depth func T this args w)) = calls w1"
    using assms run
    by (cases c) (simp_all add: throttled_unfold [of depth] throttled_body_def setTimeout_def
        Let_def)
  ultimately show ?thesis by simp
qed

text \<open>The invariant of every run.\<close>

lemma throttle_invI:
  assumes "truthy (inThrottle w) \<longleftrightarrow> pending w \<noteq> []"
    and "clock w \<le> e" and "e \<le> clock w + T" and "\<forall>t\<in>set (pending w). due t = e"
  shows "throttle_inv T w"
  using assms unfolding throttle_inv_def by blast

lemma throttle_inv_call:
  assumes "throttle_inv T w"
  shows "throttle_inv T (fst (throttled depth func T this args w))"
proof (cases "truthy (inThrottle w)")
  case True
  with assms show ?thesis by (simp add: throttled_locked)
next
  case False
  with assms have "armed T w"
    by (simp add: throttle_inv_def armed_def)
  with throttled_extends [of T w depth func this args]
  have "armed T (fst (throttled depth func T this args w))"
    and "clock (fst (throttled depth func T this args w)) = clock w"
    by (simp_all add: extends_def)
  then show ?thesis
    by (intro throttle_invI [where e = "clock w + T"]) (simp_all add: armed_def)
qed

lemma throttle_inv_advance:
  assumes "throttle_inv T w"
  shows "throttle_inv T (throttle_advance dt w)"
proof (cases "pending w = []")
  case True
  with assms have "\<not> truthy (inThrottle w)" by (simp add: throttle_inv_def)
  with True show ?thesis
    by (intro throttle_invI [where e = "clock w + dt"]) (simp_all add: throttle_advance_idle)
next
  case False
  from assms obtain e where e: "clock w \<le> e" "e \<le> clock w + T"
    "\<forall>t\<in>set (pending w). due t = e"
    by (auto simp: throttle_inv_def)
  show ?thesis
  proof (cases "e \<le> clock w + dt")
    case True
    with False e(3) have "throttle_advance dt w
        = w\<lparr>clock := clock w + dt, pending := [], inThrottle := Boolean False\<rparr>"
      by (intro throttle_advance_fire)
    then show ?thesis
      by (intro throttle_invI [where e = "clock w + dt"]) simp_all
  next
    case late: False
    with e(3) have "throttle_advance dt w = w\<lparr>clock := clock w + dt\<rparr>"
      by (intro throttle_advance_wait) simp
    moreover have "clock w + dt \<le> e \<and> e \<le> clock w + dt + T"
      using late e by simp
    ultimately show ?thesis
      using assms e(3) by (intro throttle_invI [where e = e]) (simp_all add: throttle_inv_def)
  qed
qed

lemma throttle_run_Nil: "throttle_run depth func limit w [] = w"
  by (simp add: throttle_run_def)

lemma throttle_run_Cons:
  "throttle_run depth func limit w (ev # evs)
     = throttle_run depth func limit (throttle_step depth func limit w ev) evs"
  by (simp add: throttle_run_def)

lemma throttle_run_append:
  "throttle_run depth func limit w (evs @ more_evs)
     = throttle_run depth func limit (throttle_run depth func limit w evs) more_evs"
  by (simp add: throttle_run_def)

lemma throttle_inv_step:
  "throttle_inv T w \<Longrightarrow> throttle_inv T (throttle_step depth func T w ev)"
  by (cases ev) (simp_all add: throttle_inv_call throttle_inv_advance)

lemma throttle_inv_run:
  "throttle_inv T w \<Longrightarrow> throttle_inv T (throttle_run depth func T w evs)"
  by (induction evs arbitrary: w)
     (simp_all add: throttle_run_Nil throttle_run_Cons throttle_inv_step)

lemma throttle_inv_new: "throttle_inv T throttle_new"
  by (auto simp: throttle_inv_def throttle_new_def)

lemma clock_throttle_run:
  "clock (throttle_run depth func limit w evs) = clock w + elapsed evs"
proof (induction evs arbitrary: w)
  case Nil
  show ?case by (simp add: throttle_run_Nil)
next
  case (Cons ev evs)
  then show ?case
    by (cases ev) (simp_all add: throttle_run_Cons clock_throttled clock_throttle_advance)
qed

text \<open>While the lock is held and no release is due yet, events only move the clock.\<close>

lemma throttle_run_locked:
  assumes "truthy (inThrottle w)" and "\<forall>t\<in>set (pending w). clock w + elapsed evs < due t"
  shows "throttle_run depth func limit w evs = w\<lparr>clock := clock w + elapsed evs\<rparr>"
  using assms
proof (induction evs arbitrary: w)
  case Nil
  then show ?case by (simp add: throttle_run_Nil)
next
  case (Cons ev evs)
  show ?case
  proof (cases ev)
    case (Call this args)
    with Cons show ?thesis
      by (simp add: throttle_run_Cons throttled_locked)
  next
    case (Advance dt)
    with Cons.prems have step: "throttle_advance dt w = w\<lparr>clock := clock w + dt\<rparr>"
      by (intro throttle_advance_wait) auto
    have "throttle_run depth func limit (w\<lparr>clock := clock w + dt\<rparr>) evs
        = (w\<lparr>clock := clock w + dt\<rparr>)\<lparr>clock := clock (w\<lparr>clock := clock w + dt\<rparr>) + elapsed evs\<rparr>"
      using Cons.prems Advance by (intro Cons.IH) (simp_all add: add.assoc)
    then show ?thesis
      using Advance by (simp add: throttle_run_Cons step add.assoc)
  qed
qed

text \<open>A callback that does not call its wrapper.\<close>

lemma single_inv_call:
  assumes f: "never_reenters func" and inv: "single_inv T w"
  shows "single_inv T (fst (throttled depth func T this args w))"
proof (cases "truthy (inThrottle w)")
  case True
  with inv show ?thesis by (simp add: throttled_locked)
next
  case False
  with inv have idle: "pending w = []" by (simp add: single_inv_def)
  from f obtain c where c: "func (clock w) (calls w) (this_binding this) args = Finish c"
    unfolding never_reenters_def by blast
  show ?thesis
  proof (cases c)
    case (Return r)
    with c False idle show ?thesis
      by (simp add: throttled_return single_inv_def)
  next
    case (Throw e)
    with c False idle show ?thesis
      by (simp add: throttled_throw single_inv_def)
  qed
qed

lemma single_inv_advance:
  assumes "single_inv T w"
  shows "single_inv T (throttle_advance dt w)"
proof (cases "truthy (inThrottle w)")
  case False
  with assms have "pending w = []" by (simp add: single_inv_def)
  with False show ?thesis by (simp add: throttle_advance_idle single_inv_def)
next
  case True
  with assms obtain t where t: "pending w = [t]" "clock w \<le> due t" "due t \<le> clock w + T"
    by (auto simp: single_inv_def)
  show ?thesis
  proof (cases "due t \<le> clock w + dt")
    case True
    with t show ?thesis
      by (simp add: throttle_advance_fire [of w "due t"] single_inv_def)
  next
    case False
    with t \<open>truthy (inThrottle w)\<close> show ?thesis
      by (simp add: throttle_advance_wait single_inv_def)
  qed
qed

lemma single_inv_run:
  assumes "never_reenters func"
  shows "single_inv T w \<Longrightarrow> single_inv T (throttle_run depth func T w evs)"
proof (induction evs arbitrary: w)
  case Nil
  then show ?case by (simp add: throttle_run_Nil)
next
  case (Cons ev evs)
  have "single_inv T (throttle_step depth func T w ev)"
    using assms Cons.prems by (cases ev) (simp_all add: single_inv_call single_inv_advance)
  then show ?case
    by (simp add: throttle_run_Cons Cons.IH)
qed

lemma single_inv_new: "single_inv T throttle_new"
  by (simp add: single_inv_def throttle_new_def)

lemma invocations_in_snoc:
  "invocations_in s len (cs @ [c])
     = invocations_in s len cs + (if s \<le> at c \<and> at c < s + len then 1 else 0)"
  by (simp add: invocations_in_def)

lemma invocations_in_none:
  assumes "\<forall>c\<in>set cs. at c + len \<le> t" and "t < s + len"
  shows "invocations_in s len cs = 0"
proof -
  have "filter (\<lambda>c. s \<le> at c \<and> at c < s + len) cs = []"
    using assms by (auto simp: filter_empty_conv)
  then show ?thesis by (simp add: invocations_in_def)
qed

lemma horizon_idle: "pending w = [] \<Longrightarrow> horizon w = clock w"
  by (simp add: horizon_def)

lemma rate_inv_mono:
  assumes "rate_inv T w" and "calls w' = calls w" and "horizon w \<le> horizon w'"
  shows "rate_inv T w'"
  using assms unfolding rate_inv_def by (metis order_trans)

lemma finishes_returning:
  assumes "never_throws func" and "never_reenters func"
  shows "\<exists>r. func t log this args = Finish (Return r)"
proof -
  from assms(2) obtain c where c: "func t log this args = Finish c"
    unfolding never_reenters_def by blast
  from assms(1) have "returns (func t log this args)"
    unfolding never_throws_def by blast
  with c show ?thesis by auto
qed

lemma rate_inv_call:
  assumes f: "never_throws func" "never_reenters func"
    and inv: "single_inv T w" and rate: "rate_inv T w"
  shows "rate_inv T (fst (throttled depth func T this args w))"
proof (cases "truthy (inThrottle w)")
  case True
  with rate show ?thesis by (simp add: throttled_locked)
next
  case False
  with inv have idle: "pending w = []" by (simp add: single_inv_def)
  from finishes_returning [OF f] obtain r
    where r: "func (clock w) (calls w) (this_binding this) args = Finish (Return r)"
    by blast
  let ?c = "\<lparr>at = clock w, receiver = this_binding this, arguments = args\<rparr>"
  let ?w = "fst (throttled depth func T this args w)"
  have calls: "calls ?w = calls w @ [?c]" and hor: "horizon ?w = clock w + T"
    using False r idle by (simp_all add: throttled_return horizon_def)
  from rate idle have old: "\<forall>c\<in>set (calls w). at c + T \<le> clock w"
    and one: "\<And>s. invocations_in s T (calls w) \<le> 1"
    and len: "length (calls w) * T \<le> clock w"
    by (simp_all add: rate_inv_def horizon_idle)
  have "invocations_in s T (calls w @ [?c]) \<le> 1" for s
  proof (cases "s \<le> clock w \<and> clock w < s + T")
    case True
    with old have "invocations_in s T (calls w) = 0"
      by (intro invocations_in_none [of _ _ "clock w"]) simp_all
    then show ?thesis by (simp add: invocations_in_snoc)
  next
    case False
    with one [of s] show ?thesis by (auto simp: invocations_in_snoc)
  qed
  moreover have "\<forall>c\<in>set (calls w @ [?c]). at c + T \<le> clock w + T"
    using old by auto
  moreover have "length (calls w @ [?c]) * T \<le> clock w + T"
    using len by simp
  ultimately show ?thesis
    by (simp add: rate_inv_def calls hor)
qed

lemma rate_inv_advance:
  assumes inv: "single_inv T w" and rate: "rate_inv T w"
  shows "rate_inv T (throttle_advance dt w)"
proof (cases "truthy (inThrottle w)")
  case False
  with inv have idle: "pending w = []" by (simp add: single_inv_def)
  then show ?thesis
    by (intro rate_inv_mono [OF rate]) (simp_all add: throttle_advance_idle horizon_def)
next
  case True
  with inv obtain t where t: "pending w = [t]" "clock w \<le> due t"
    by (auto simp: single_inv_def)
  show ?thesis
  proof (cases "due t \<le> clock w + dt")
    case True
    with t show ?thesis
      by (intro rate_inv_mono [OF rate])
         (simp_all add: throttle_advance_fire [of w "due t"] horizon_def)
  next
    case False
    with t show ?thesis
      by (intro rate_inv_mono [OF rate]) (simp_all add: throttle_advance_wait horizon_def)
  qed
qed

lemma rate_inv_run:
  assumes "never_throws func" "never_reenters func"
  shows "single_inv T w \<Longrightarrow> rate_inv T w \<Longrightarrow> rate_inv T (throttle_run depth func T w evs)"
proof (induction evs arbitrary: w)
  case Nil
  then show ?case by (simp add: throttle_run_Nil)
next
  case (Cons ev evs)
  have "single_inv T (throttle_step depth func T w ev)"
    using assms(2) Cons.prems(1)
    by (cases ev) (simp_all add: single_inv_call single_inv_advance)
  moreover have "rate_inv T (throttle_step depth func T w ev)"
    using assms Cons.prems by (cases ev) (simp_all add: rate_inv_call rate_inv_advance)
  ultimately show ?case
    by (simp add: throttle_run_Cons Cons.IH)
qed

lemma rate_inv_new: "rate_inv T throttle_new"
  by (simp add: rate_inv_def throttle_new_def invocations_in_def)

lemma horizon_bound: "single_inv T w \<Longrightarrow> horizon w \<le> clock w + T"
  by (auto simp: single_inv_def horizon_def split: if_splits)

lemma elapsed_every: "elapsed (every gap cs) = gap * (length cs - 1)"
  by (induction gap cs rule: every.induct) simp_all

subsection \<open>Claims about throttle\<close>

text \<open>
  Claim C1, as amended. For a callback that returns normally whenever it is called and
  never calls its own wrapper, and every sequence of calls and pauses on a fresh
  throttled wrapper with interval \<open>T\<close>, whatever the depth of the stack: every window
  of length \<open>T\<close> (start included, end excluded) holds at most one invocation of the
  callback, and the number of invocations times \<open>T\<close> is at most the time passed plus
  \<open>T\<close>. When the wrapper is unlocked, a call followed by any events that take less than
  \<open>T\<close> in total adds exactly one invocation, made at once with the arguments of that
  first call (and with the \<^verbatim>\<open>this\<close> of the wrapper in that call). And up to 101
  calls, one every 10 ms from 0 to 1000 ms, with \<open>T = 100\<close> invoke the callback at most
  11 times.
\<close>

theorem throttle_rate_limit:
  assumes "never_throws f" and "never_reenters f"
  shows "invocations_in s T (calls (throttle_run depth f T throttle_new evs)) \<le> 1
     \<and> length (calls (throttle_run depth f T throttle_new evs)) * T \<le> elapsed evs + T
     \<and> (\<not> truthy (inThrottle (throttle_run depth f T throttle_new pre))
          \<and> elapsed rapid < T \<longrightarrow>
          calls (throttle_run depth f T throttle_new (pre @ Call this args # rapid))
            = calls (throttle_run depth f T throttle_new pre) @
              [\<lparr>at = elapsed pre, receiver = this_binding this, arguments = args\<rparr>])
     \<and> (length cs \<le> 101 \<longrightarrow>
          length (calls (throttle_run depth f 100 throttle_new (every 10 cs))) \<le> 11)"
proof -
  have inv: "single_inv T (throttle_run depth f T throttle_new evs)" for T evs
    by (rule single_inv_run [OF assms(2) single_inv_new])
  have rate: "rate_inv T (throttle_run depth f T throttle_new evs)" for T evs
    by (rule rate_inv_run [OF assms single_inv_new rate_inv_new])
  have count: "length (calls (throttle_run depth f T throttle_new evs)) * T \<le> elapsed evs + T"
    for T evs
  proof -
    let ?w = "throttle_run depth f T throttle_new evs"
    have "length (calls ?w) * T \<le> horizon ?w"
      using rate [of T evs] by (simp add: rate_inv_def)
    also have "\<dots> \<le> clock ?w + T"
      by (rule horizon_bound [OF inv])
    finally show ?thesis
      by (simp add: clock_throttle_run throttle_new_def)
  qed
  have window: "invocations_in s T (calls (throttle_run depth f T throttle_new evs)) \<le> 1"
    using rate [of T evs] by (simp add: rate_inv_def)
  have one: "calls (throttle_run depth f T throttle_new (pre @ Call this args # rapid))
      = calls (throttle_run depth f T throttle_new pre) @
        [\<lparr>at = elapsed pre, receiver = this_binding this, arguments = args\<rparr>]"
    if open_: "\<not> truthy (inThrottle (throttle_run depth f T throttle_new pre))"
      and quick: "elapsed rapid < T"
  proof -
    let ?wa = "throttle_run depth f T throttle_new pre"
    let ?wb = "fst (throttled depth f T this args ?wa)"
    have now: "clock ?wa = elapsed pre"
      by (simp add: clock_throttle_run throttle_new_def)
    from inv [of T pre] open_ have idle: "pending ?wa = []"
      by (simp add: single_inv_def)
    from finishes_returning [OF assms] obtain r
      where r: "f (clock ?wa) (calls ?wa) (this_binding this) args = Finish (Return r)"
      by blast
    have wb: "truthy (inThrottle ?wb)"
      "pending ?wb = [\<lparr>handle = nextHandle ?wa, due = clock ?wa + T, callback = ()\<rparr>]"
      "clock ?wb = clock ?wa"
      "calls ?wb = calls ?wa @
         [\<lparr>at = clock ?wa, receiver = this_binding this, arguments = args\<rparr>]"
      using open_ r idle by (simp_all add: throttled_return)
    have "throttle_run depth f T ?wb rapid = ?wb\<lparr>clock := clock ?wb + elapsed rapid\<rparr>"
    proof (rule throttle_run_locked)
      show "truthy (inThrottle ?wb)" by (rule wb(1))
      show "\<forall>t\<in>set (pending ?wb). clock ?wb + elapsed rapid < due t"
        using quick by (simp add: wb(2) wb(3))
    qed
    then have "calls (throttle_run depth f T ?wb rapid) = calls ?wb"
      by simp
    then show ?thesis
      using wb(4) now by (simp add: throttle_run_append throttle_run_Cons)
  qed
  have sim: "length (calls (throttle_run depth f 100 throttle_new (every 10 cs))) \<le> 11"
    if "length cs \<le> 101"
  proof -
    from that have "elapsed (every 10 cs) \<le> 1000"
      by (simp add: elapsed_every)
    with count [of 100 "every 10 cs"] show ?thesis
      by simp
  qed
  from window count one sim show ?thesis by blast
qed

text \<open>The amended claim on a callback that returns \<open>undefined\<close>: a call, and a
  second call 50 ms later, give one invocation; the 101 simulated calls give 11.\<close>

theorem throttle_rate_limit_witness:
  "never_throws (\<lambda>t log this args. Finish (Return Undefined))
   \<and> never_reenters (\<lambda>t log this args. Finish (Return Undefined))
   \<and> \<not> truthy (inThrottle (throttle_run 3 (\<lambda>t log this args. Finish (Return Undefined)) 100
        throttle_new []))
   \<and> elapsed [Advance 50, Call (Object 2) [Number 2]] < 100
   \<and> calls (throttle_run 3 (\<lambda>t log this args. Finish (Return Undefined)) 100 throttle_new
        [Call (Object 1) [Number 1], Advance 50, Call (Object 2) [Number 2]])
      = [\<lparr>at = 0, receiver = Object 1, arguments = [Number 1]\<rparr>]
   \<and> length (replicate 101 (Undefined, [] :: jsval list)) \<le> 101
   \<and> length (calls (throttle_run 3 (\<lambda>t log this args. Finish (Return Undefined)) 100
        throttle_new (every 10 (replicate 101 (Undefined, []))))) = 11"
proof -
  let ?f = "\<lambda>(t::nat) (log::call list) (this::jsval) (args::jsval list).
      Finish (Return Undefined)"
  have f: "never_throws ?f" "never_reenters ?f"
    by (simp_all add: never_throws_def never_reenters_def)
  have eleven: "length (calls (throttle_run 3 ?f 100 throttle_new
      (every 10 (replicate 101 (Undefined, []))))) = 11"
    by code_simp
  have new: "\<not> truthy (inThrottle throttle_new)" "calls throttle_new = []"
    by (simp_all add: throttle_new_def)
  from throttle_rate_limit [OF f, of 0 100 3 "[]" "[]"
      "[Advance 50, Call (Object 2) [Number 2]]"
      "Object 1" "[Number 1]" "replicate 101 (Undefined, [])", THEN conjunct2, THEN conjunct2,
      THEN conjunct1]
  have "calls (throttle_run 3 ?f 100 throttle_new
        [Call (Object 1) [Number 1], Advance 50, Call (Object 2) [Number 2]])
      = [\<lparr>at = 0, receiver = Object 1, arguments = [Number 1]\<rparr>]"
    by (simp add: throttle_run_Nil new)
  with f eleven new(1) show ?thesis
    by (simp add: throttle_run_Nil)
qed

text \<open>
  Claim C1 as stated fails for a callback that throws: \<^verbatim>\<open>func.apply\<close> leaves the
  wrapper before \<^verbatim>\<open>inThrottle = true\<close> is reached, so a second call 10 ms later
  invokes the callback again, twice within 100 ms. It also fails for a callback that
  returns normally but calls its own wrapper when it is called without arguments: the
  lock is not yet set while the callback runs, so the nested call invokes the callback a
  second time at the same instant.
\<close>

theorem throttle_rate_limit_counterexample:
  "invocations_in 0 100
     (calls (throttle_run 3 (\<lambda>t log this args. Finish (Throw (String ''boom''))) 100
        throttle_new [Call Undefined [], Advance 10, Call Undefined []])) = 2
   \<and> invocations_in 0 100
     (calls (throttle_run 3
        (\<lambda>t log this args.
           case args of
             [] \<Rightarrow> Reenter this [Number 1] (\<lambda>c. Finish (Return Undefined))
           | _ \<Rightarrow> Finish (Return Undefined))
        100 throttle_new [Call Undefined []])) = 2"
  by code_simp

text \<open>
  Claim C6, as amended. For a callback that returns normally, whether or not it calls
  its own wrapper, and whatever the depth of the stack. The first call to a fresh wrapper
  returns \<open>undefined\<close>, has set the lock, and the first invocation it made was made at
  once with the arguments of the call and the \<^verbatim>\<open>this\<close> of the wrapper: the receiver
  of the call when that is an object, the global object when it is \<^verbatim>\<open>undefined\<close> or
  \<^verbatim>\<open>null\<close>, a wrapper object when it is a primitive. When the callback does not call
  the wrapper, that is the only invocation and one release is scheduled \<open>T\<close> ms ahead.
  A call that finds the lock set changes nothing. From any reachable unlocked state, a
  call takes the lock, with every release it scheduled due \<open>T\<close> ms ahead; events that
  take less than \<open>T\<close> in total only move the clock; once \<open>T\<close> ms have passed the lock is
  released and nothing more was invoked; and the next call invokes the callback with
  its own arguments and \<^verbatim>\<open>this\<close> and takes the lock again.
\<close>

theorem throttle_cycle:
  assumes "never_throws f"
  shows "snd (throttled depth f T this args throttle_new) = Return Undefined
     \<and> truthy (inThrottle (fst (throttled depth f T this args throttle_new)))
     \<and> prefix [\<lparr>at = 0, receiver = this_binding this, arguments = args\<rparr>]
          (calls (fst (throttled depth f T this args throttle_new)))
     \<and> (never_reenters f \<longrightarrow>
          fst (throttled depth f T this args throttle_new)
            = throttle_new\<lparr>calls := [\<lparr>at = 0, receiver = this_binding this,
                                        arguments = args\<rparr>],
                inThrottle := Boolean True, nextHandle := 2,
                pending := [\<lparr>handle = 1, due = T, callback = ()\<rparr>]\<rparr>)
     \<and> (truthy (inThrottle w) \<longrightarrow> throttled depth f T this args w = (w, Return Undefined))
     \<and> (let w0 = throttle_run depth f T throttle_new pre;
             w1 = fst (throttled depth f T this args w0);
             first = \<lparr>at = clock w0, receiver = this_binding this, arguments = args\<rparr>;
             w3 = throttle_run depth f T w1 (ignored @ [Advance n]);
             w4 = fst (throttled depth f T this' args' w3);
             second = \<lparr>at = clock w0 + elapsed ignored + n, receiver = this_binding this',
                        arguments = args'\<rparr>
         in \<not> truthy (inThrottle w0) \<and> elapsed ignored < T \<and> T \<le> elapsed ignored + n \<longrightarrow>
              truthy (inThrottle w1)
              \<and> prefix (calls w0 @ [first]) (calls w1)
              \<and> (never_reenters f \<longrightarrow> calls w1 = calls w0 @ [first])
              \<and> pending w1 \<noteq> [] \<and> (\<forall>t\<in>set (pending w1). due t = clock w0 + T)
              \<and> throttle_run depth f T w1 ignored = w1\<lparr>clock := clock w1 + elapsed ignored\<rparr>
              \<and> \<not> truthy (inThrottle w3) \<and> calls w3 = calls w1
              \<and> prefix (calls w1 @ [second]) (calls w4)
              \<and> (never_reenters f \<longrightarrow> calls w4 = calls w0 @ [first, second])
              \<and> truthy (inThrottle w4))"
proof -
  have ret: "returns (f t log this args)" for t log this args
    using assms unfolding never_throws_def by blast
  have new: "\<not> truthy (inThrottle throttle_new)" "calls throttle_new = []"
    "clock throttle_new = 0" "pending throttle_new = []" "nextHandle throttle_new = 1"
    by (simp_all add: throttle_new_def)
  have fresh: "snd (throttled depth f T this args throttle_new) = Return Undefined"
    "truthy (inThrottle (fst (throttled depth f T this args throttle_new)))"
    using throttled_returns [OF new(1) ret] by simp_all
  have fresh_first: "prefix [\<lparr>at = 0, receiver = this_binding this, arguments = args\<rparr>]
      (calls (fst (throttled depth f T this args throttle_new)))"
    using throttled_first [OF new(1), of this args depth f T] by (simp add: new)
  have fresh_state: "fst (throttled depth f T this args throttle_new)
      = throttle_new\<lparr>calls := [\<lparr>at = 0, receiver = this_binding this, arguments = args\<rparr>],
          inThrottle := Boolean True, nextHandle := 2,
          pending := [\<lparr>handle = 1, due = T, callback = ()\<rparr>]\<rparr>"
    if "never_reenters f"
  proof -
    from finishes_returning [OF assms that] obtain r
      where "f (clock throttle_new) (calls throttle_new) (this_binding this) args
        = Finish (Return r)"
      by blast
    then show ?thesis
      by (simp add: throttled_return [OF new(1)] new)
  qed
  have drop: "truthy (inThrottle w) \<longrightarrow> throttled depth f T this args w = (w, Return Undefined)"
    by (simp add: throttled_locked)
  let ?wa = "throttle_run depth f T throttle_new pre"
  let ?wb = "fst (throttled depth f T this args ?wa)"
  let ?first = "\<lparr>at = clock ?wa, receiver = this_binding this, arguments = args\<rparr>"
  let ?wc = "throttle_run depth f T ?wb (ignored @ [Advance n])"
  let ?wd = "fst (throttled depth f T this' args' ?wc)"
  let ?second = "\<lparr>at = clock ?wa + elapsed ignored + n, receiver = this_binding this',
      arguments = args'\<rparr>"
  have cycle: "truthy (inThrottle ?wb)
      \<and> prefix (calls ?wa @ [?first]) (calls ?wb)
      \<and> (never_reenters f \<longrightarrow> calls ?wb = calls ?wa @ [?first])
      \<and> pending ?wb \<noteq> [] \<and> (\<forall>t\<in>set (pending ?wb). due t = clock ?wa + T)
      \<and> throttle_run depth f T ?wb ignored = ?wb\<lparr>clock := clock ?wb + elapsed ignored\<rparr>
      \<and> \<not> truthy (inThrottle ?wc) \<and> calls ?wc = calls ?wb
      \<and> prefix (calls ?wb @ [?second]) (calls ?wd)
      \<and> (never_reenters f \<longrightarrow> calls ?wd = calls ?wa @ [?first, ?second])
      \<and> truthy (inThrottle ?wd)"
    if open_: "\<not> truthy (inThrottle ?wa)" and quick: "elapsed ignored < T"
      and over: "T \<le> elapsed ignored + n"
  proof -
    have "throttle_inv T ?wa"
      by (rule throttle_inv_run [OF throttle_inv_new])
    with open_ have "armed T ?wa"
      by (simp add: throttle_inv_def armed_def)
    with throttled_extends [of T ?wa depth f this args]
    have armed: "armed T ?wb" and now: "clock ?wb = clock ?wa"
      by (simp_all add: extends_def)
    have locked: "truthy (inThrottle ?wb)" and some: "pending ?wb \<noteq> []"
      using throttled_returns [OF open_ ret] by simp_all
    from armed now have due: "\<forall>t\<in>set (pending ?wb). due t = clock ?wa + T"
      by (simp add: armed_def)
    have first: "prefix (calls ?wa @ [?first]) (calls ?wb)"
      by (rule throttled_first [OF open_])
    have only: "calls ?wb = calls ?wa @ [?first]" if "never_reenters f"
    proof -
      from finishes_returning [OF assms that] obtain r
        where "f (clock ?wa) (calls ?wa) (this_binding this) args = Finish (Return r)"
        by blast
      then show ?thesis
        by (simp add: throttled_return [OF open_])
    qed
    let ?wi = "?wb\<lparr>clock := clock ?wb + elapsed ignored\<rparr>"
    have wi: "throttle_run depth f T ?wb ignored = ?wi"
    proof (rule throttle_run_locked)
      show "truthy (inThrottle ?wb)" by (rule locked)
      show "\<forall>t\<in>set (pending ?wb). clock ?wb + elapsed ignored < due t"
        using due quick now by simp
    qed
    let ?wr = "?wi\<lparr>clock := clock ?wi + n, pending := [], inThrottle := Boolean False\<rparr>"
    have "throttle_advance n ?wi = ?wr"
    proof (rule throttle_advance_fire)
      show "pending ?wi \<noteq> []" using some by simp
      show "\<forall>t\<in>set (pending ?wi). due t = clock ?wa + T" using due by simp
      show "clock ?wa + T \<le> clock ?wi + n" using over now by simp
    qed
    then have wc: "?wc = ?wr"
      by (simp add: throttle_run_append wi throttle_run_Cons throttle_run_Nil)
    have free: "\<not> truthy (inThrottle ?wc)" and same: "calls ?wc = calls ?wb"
      and then_: "clock ?wc = clock ?wa + elapsed ignored + n"
      by (simp_all add: wc now)
    have second: "prefix (calls ?wb @ [?second]) (calls ?wd)"
      using throttled_first [OF free, of this' args' depth f T] by (simp add: same then_)
    have relocked: "truthy (inThrottle ?wd)"
      using throttled_returns [OF free ret] by simp
    have both: "calls ?wd = calls ?wa @ [?first, ?second]" if "never_reenters f"
    proof -
      from finishes_returning [OF assms that] obtain r
        where "f (clock ?wc) (calls ?wc) (this_binding this') args' = Finish (Return r)"
        by blast
      then have "calls ?wd = calls ?wc @
          [\<lparr>at = clock ?wc, receiver = this_binding this', arguments = args'\<rparr>]"
        by (simp add: throttled_return [OF free])
      with only [OF that] show ?thesis
        by (simp add: same then_)
    qed
    from locked first only some due wi free same second both relocked show ?thesis
      by blast
  qed
  from fresh fresh_first fresh_state drop cycle show ?thesis
    unfolding Let_def by blast
qed

text \<open>The amended claim at work with \<open>T = 100\<close>: a call on an object, a dropped call
  60 ms later, the release within a further 50 ms, and a plain call that goes through at
  110 ms, with the global object as \<^verbatim>\<open>this\<close>.\<close>

theorem throttle_cycle_witness:
  "never_throws (\<lambda>t log this args. Finish (Return (Number 42)))
   \<and> never_reenters (\<lambda>t log this args. Finish (Return (Number 42)))
   \<and> \<not> truthy (inThrottle throttle_new)
   \<and> elapsed [Advance 60, Call (Object 2) [Number 2]] < 100
   \<and> 100 \<le> elapsed [Advance 60, Call (Object 2) [Number 2]] + 50
   \<and> truthy (inThrottle (fst (throttled 3 (\<lambda>t log this args. Finish (Return (Number 42))) 100
        (Object 1) [Number 1] throttle_new)))
   \<and> map due (pending (fst (throttled 3 (\<lambda>t log this args. Finish (Return (Number 42))) 100
        (Object 1) [Number 1] throttle_new))) = [100]
   \<and> throttled 3 (\<lambda>t log this args. Finish (Return (Number 42))) 100 (Object 2) [Number 2]
        (fst (throttled 3 (\<lambda>t log this args. Finish (Return (Number 42))) 100
           (Object 1) [Number 1] throttle_new))
      = (fst (throttled 3 (\<lambda>t log this args. Finish (Return (Number 42))) 100
           (Object 1) [Number 1] throttle_new), Return Undefined)
   \<and> calls (throttle_run 3 (\<lambda>t log this args. Finish (Return (Number 42))) 100 throttle_new
        [Call (Object 1) [Number 1], Advance 60, Call (Object 2) [Number 2], Advance 50,
         Call Undefined [Number 3]])
      = [\<lparr>at = 0, receiver = Object 1, arguments = [Number 1]\<rparr>,
         \<lparr>at = 110, receiver = Global, arguments = [Number 3]\<rparr>]"
proof -
  let ?f = "\<lambda>(t::nat) (log::call list) (this::jsval) (args::jsval list).
      Finish (Return (Number 42))"
  have f: "never_throws ?f" "never_reenters ?f"
    by (simp_all add: never_throws_def never_reenters_def)
  have new: "\<not> truthy (inThrottle throttle_new)" "calls throttle_new = []"
    "clock throttle_new = 0"
    by (simp_all add: throttle_new_def)
  let ?w1 = "fst (throttled 3 ?f 100 (Object 1) [Number 1] throttle_new)"
  have split: "throttle_run 3 ?f 100 throttle_new
        [Call (Object 1) [Number 1], Advance 60, Call (Object 2) [Number 2], Advance 50,
         Call Undefined [Number 3]]
      = fst (throttled 3 ?f 100 Undefined [Number 3]
          (throttle_run 3 ?f 100 ?w1 ([Advance 60, Call (Object 2) [Number 2]] @ [Advance 50])))"
    by (simp add: throttle_run_def)
  have due: "map due (pending ?w1) = [100]"
    by code_simp
  from throttle_cycle [OF f(1), of 3 100 "Object 1" "[Number 1]" ?w1 "[]"
      "[Advance 60, Call (Object 2) [Number 2]]" 50 Undefined "[Number 3]",
      THEN conjunct2, THEN conjunct2, THEN conjunct2, THEN conjunct2, THEN conjunct2]
  have cycle: "truthy (inThrottle ?w1)
      \<and> calls (fst (throttled 3 ?f 100 Undefined [Number 3]
          (throttle_run 3 ?f 100 ?w1 ([Advance 60, Call (Object 2) [Number 2]] @ [Advance 50]))))
        = [\<lparr>at = 0, receiver = Object 1, arguments = [Number 1]\<rparr>,
           \<lparr>at = 110, receiver = Global, arguments = [Number 3]\<rparr>]"
    using f(2) by (simp add: Let_def throttle_run_Nil new)
  with throttle_cycle [OF f(1), of 3 100 "Object 2" "[Number 2]" ?w1,
      THEN conjunct2, THEN conjunct2, THEN conjunct2, THEN conjunct2, THEN conjunct1]
  have dropped: "throttled 3 ?f 100 (Object 2) [Number 2] ?w1 = (?w1, Return Undefined)"
    by blast
  have times: "elapsed [Advance 60, Call (Object 2) [Number 2]] < 100"
    "100 \<le> elapsed [Advance 60, Call (Object 2) [Number 2]] + 50"
    by simp_all
  from f new(1) times cycle due dropped show ?thesis
    by (simp only: split simp_thms)
qed

text \<open>
  Claim C6 as stated fails for a callback that throws: the first call invokes it, but the
  wrapper does not become locked, and the call that follows at once is not dropped. And
  the callback does not always get the receiver of the call: called on the string
  \<open>s\<close> the wrapper passes a \<^verbatim>\<open>String\<close> object, and called plainly it passes the
  global object.
\<close>

theorem throttle_cycle_counterexample:
  "\<not> truthy (inThrottle (fst (throttled 3 (\<lambda>t log this args. Finish (Throw (String ''boom'')))
        100 Undefined [] throttle_new)))
   \<and> length (calls (throttle_run 3 (\<lambda>t log this args. Finish (Throw (String ''boom''))) 100
        throttle_new [Call Undefined [], Call Undefined []])) = 2
   \<and> map receiver (calls (fst (throttled 3 (\<lambda>t log this args. Finish (Return Undefined)) 100
        (String ''s'') [] throttle_new))) = [StringObject ''s'']
   \<and> map receiver (calls (fst (throttled 3 (\<lambda>t log this args. Finish (Return Undefined)) 100
        Undefined [] throttle_new))) = [Global]"
  by code_simp

subsection \<open>Facts about debounce\<close>

lemma debounce_timers_idle: "pending w = [] \<Longrightarrow> debounce_timers func until w = w"
  by (subst debounce_timers.simps) simp

lemma debounce_timers_wait:
  "pending w = [t] \<Longrightarrow> until < due t \<Longrightarrow> debounce_timers func until w = w"
  by (subst debounce_timers.simps) simp

lemma later_idle:
  "pending w = [] \<Longrightarrow>
   later func args w
     = w\<lparr>calls := calls w @
          [\<lparr>at = clock w, receiver = Undefined, arguments = args,
            outcome = func (clock w) (calls w) Undefined args\<rparr>]\<rparr>"
  by (simp add: later_def invoke_def clearTimeout_def Let_def)

lemma debounce_timers_fire:
  assumes "pending w = [t]" and "due t \<le> until"
  shows "debounce_timers func until w
     = w\<lparr>clock := max (clock w) (due t), pending := [],
          calls := calls w @
            [\<lparr>at = max (clock w) (due t), receiver = Undefined, arguments = callback t,
              outcome = func (max (clock w) (due t)) (calls w) Undefined (callback t)\<rparr>]\<rparr>"
proof -
  let ?w = "w\<lparr>clock := max (clock w) (due t), pending := []\<rparr>"
  have removed: "w\<lparr>clock := max (clock w) (due t),
      pending := filter (\<lambda>u. handle u \<noteq> handle t) (pending w)\<rparr> = ?w"
    using assms by simp
  have fired: "later func (callback t) ?w
      = ?w\<lparr>calls := calls ?w @
          [\<lparr>at = clock ?w, receiver = Undefined, arguments = callback t,
            outcome = func (clock ?w) (calls ?w) Undefined (callback t)\<rparr>]\<rparr>"
    by (rule later_idle) simp
  have "debounce_timers func until w = debounce_timers func until (later func (callback t) ?w)"
    using assms by (subst debounce_timers.simps) (simp add: removed)
  also have "\<dots> = later func (callback t) ?w"
    by (rule debounce_timers_idle) (simp add: fired)
  finally show ?thesis
    by (simp add: fired)
qed

lemma debounce_advance_idle:
  "pending w = [] \<Longrightarrow> debounce_advance func dt w = w\<lparr>clock := clock w + dt\<rparr>"
  by (simp add: debounce_advance_def debounce_timers_idle)

lemma debounce_advance_wait:
  "pending w = [t] \<Longrightarrow> clock w + dt < due t \<Longrightarrow>
   debounce_advance func dt w = w\<lparr>clock := clock w + dt\<rparr>"
  by (simp add: debounce_advance_def debounce_timers_wait)

lemma debounce_advance_fire:
  "pending w = [t] \<Longrightarrow> clock w \<le> due t \<Longrightarrow> due t \<le> clock w + dt \<Longrightarrow>
   debounce_advance func dt w
     = w\<lparr>clock := clock w + dt, pending := [],
          calls := calls w @
            [\<lparr>at = due t, receiver = Undefined, arguments = callback t,
              outcome = func (due t) (calls w) Undefined (callback t)\<rparr>]\<rparr>"
  by (simp add: debounce_advance_def debounce_timers_fire max_absorb2)

lemma clear_pending:
  "debounce_inv w \<Longrightarrow> pending (clearTimeout (timeout w) w) = []"
  by (auto simp: debounce_inv_def clearTimeout_def)

lemma debounced_inv:
  assumes "debounce_inv w"
  shows "debounced func wait this args w
     = (w\<lparr>nextHandle := Suc (nextHandle w),
          pending := [\<lparr>handle = nextHandle w, due = clock w + wait, callback = args\<rparr>],
          timeout := Number (int (nextHandle w))\<rparr>,
        Return Undefined)"
  using clear_pending [OF assms]
  by (simp add: debounced_def setTimeout_def clearTimeout_def Let_def)

lemma debounce_inv_call:
  "debounce_inv w \<Longrightarrow> debounce_inv (fst (debounced func wait this args w))"
  by (simp add: debounced_inv) (simp add: debounce_inv_def)

lemma debounce_inv_advance:
  assumes "debounce_inv w"
  shows "debounce_inv (debounce_advance func dt w)"
proof (cases "pending w")
  case Nil
  then show ?thesis by (simp add: debounce_advance_idle debounce_inv_def)
next
  case (Cons t ts)
  with assms have t: "pending w = [t]" "timeout w = Number (int (handle t))" "clock w \<le> due t"
    by (auto simp: debounce_inv_def)
  show ?thesis
  proof (cases "due t \<le> clock w + dt")
    case True
    with t show ?thesis by (simp add: debounce_advance_fire debounce_inv_def)
  next
    case False
    with t show ?thesis by (simp add: debounce_advance_wait debounce_inv_def)
  qed
qed

lemma debounce_run_Nil: "debounce_run func wait w [] = w"
  by (simp add: debounce_run_def)

lemma debounce_run_Cons:
  "debounce_run func wait w (ev # evs)
     = debounce_run func wait (debounce_step func wait w ev) evs"
  by (simp add: debounce_run_def)

lemma debounce_run_snoc:
  "debounce_run func wait w (evs @ [ev])
     = debounce_step func wait (debounce_run func wait w evs) ev"
  by (simp add: debounce_run_def)

lemma debounce_inv_step:
  "debounce_inv w \<Longrightarrow> debounce_inv (debounce_step func wait w ev)"
  by (cases ev) (simp_all add: debounce_inv_call debounce_inv_advance)

lemma debounce_inv_run:
  "debounce_inv w \<Longrightarrow> debounce_inv (debounce_run func wait w evs)"
  by (induction evs arbitrary: w)
     (simp_all add: debounce_run_Nil debounce_run_Cons debounce_inv_step)

lemma debounce_inv_new: "debounce_inv debounce_new"
  by (simp add: debounce_inv_def debounce_new_def)

text \<open>Calls that follow one another in less than the quiet period invoke nothing.\<close>

lemma debounce_run_burst:
  assumes "\<forall>(this, args, gap) \<in> set cs. gap < W" and "debounce_inv w"
  shows "debounce_inv (debounce_run func W w (burst cs))
     \<and> calls (debounce_run func W w (burst cs)) = calls w
     \<and> clock (debounce_run func W w (burst cs)) = clock w + pauses cs"
  using assms
proof (induction cs arbitrary: w)
  case Nil
  then show ?case by (simp add: debounce_run_Nil)
next
  case (Cons x cs)
  obtain this args gap where x: "x = (this, args, gap)"
    by (cases x)
  with Cons.prems have gap: "gap < W" by simp
  let ?t = "\<lparr>handle = nextHandle w, due = clock w + W, callback = args\<rparr>"
  let ?w1 = "fst (debounced func W this args w)"
  let ?w2 = "debounce_advance func gap ?w1"
  have w1: "pending ?w1 = [?t]" "clock ?w1 = clock w" "calls ?w1 = calls w"
    using Cons.prems(2) by (simp_all add: debounced_inv)
  have "?w2 = ?w1\<lparr>clock := clock ?w1 + gap\<rparr>"
  proof (rule debounce_advance_wait)
    show "pending ?w1 = [?t]" by (rule w1(1))
    show "clock ?w1 + gap < due ?t" using gap w1(2) by simp
  qed
  then have w2: "clock ?w2 = clock w + gap" "calls ?w2 = calls w"
    using w1 by simp_all
  have "debounce_inv ?w2"
    by (intro debounce_inv_advance debounce_inv_call Cons.prems(2))
  moreover from Cons.prems(1) have "\<forall>(this, args, gap) \<in> set cs. gap < W"
    by simp
  ultimately have "debounce_inv (debounce_run func W ?w2 (burst cs))
     \<and> calls (debounce_run func W ?w2 (burst cs)) = calls ?w2
     \<and> clock (debounce_run func W ?w2 (burst cs)) = clock ?w2 + pauses cs"
    by (intro Cons.IH)
  then show ?case
    using w2 by (simp add: x debounce_run_Cons)
qed

subsection \<open>Claims about debounce\<close>

text \<open>
  Claim C2. Take any reachable state of a debounced wrapper with quiet period \<open>W\<close>, then
  a burst: calls that are each followed by a pause shorter than \<open>W\<close>, and a last call.
  During the burst the callback is not invoked, and after the last call exactly one timer
  is pending, due \<open>W\<close> ms later and holding the arguments of the last call. The callback
  is still not invoked when less than \<open>W\<close> ms pass, and once \<open>W\<close> ms (or more) have
  passed it has been invoked exactly once more, at the time of the last call plus \<open>W\<close>,
  with the arguments of the last call, and no timer is left. Any call to the wrapper
  leaves its own timer as the only pending one, whatever was pending before.
\<close>

theorem debounce_burst:
  assumes "\<forall>(this, args, gap) \<in> set cs. gap < W" and "W \<le> n"
  shows "let w0 = debounce_run f W debounce_new pre;
             w = debounce_run f W w0 (burst cs @ [Call this args]);
             fired = \<lparr>at = clock w + W, receiver = Undefined, arguments = args,
                      outcome = f (clock w + W) (calls w0) Undefined args\<rparr>
         in calls w = calls w0
            \<and> clock w = clock w0 + pauses cs
            \<and> map due (pending w) = [clock w + W]
            \<and> map callback (pending w) = [args]
            \<and> (\<forall>m<W. calls (debounce_advance f m w) = calls w0)
            \<and> calls (debounce_advance f n w) = calls w0 @ [fired]
            \<and> pending (debounce_advance f n w) = []
            \<and> pending (fst (debounced f W this' args' w0))
                = [\<lparr>handle = nextHandle w0, due = clock w0 + W, callback = args'\<rparr>]"
proof -
  let ?w0 = "debounce_run f W debounce_new pre"
  let ?wb = "debounce_run f W ?w0 (burst cs)"
  let ?wl = "debounce_run f W ?w0 (burst cs @ [Call this args])"
  let ?t = "\<lparr>handle = nextHandle ?wb, due = clock ?wb + W, callback = args\<rparr>"
  have inv0: "debounce_inv ?w0"
    by (rule debounce_inv_run [OF debounce_inv_new])
  from debounce_run_burst [OF assms(1) inv0]
  have wb: "debounce_inv ?wb" "calls ?wb = calls ?w0" "clock ?wb = clock ?w0 + pauses cs"
    by simp_all
  have "?wl = fst (debounced f W this args ?wb)"
    by (simp add: debounce_run_snoc)
  then have w: "pending ?wl = [?t]" "clock ?wl = clock ?wb" "calls ?wl = calls ?wb"
    using wb(1) by (simp_all add: debounced_inv)
  have early: "calls (debounce_advance f m ?wl) = calls ?w0" if "m < W" for m
  proof -
    have "debounce_advance f m ?wl = ?wl\<lparr>clock := clock ?wl + m\<rparr>"
    proof (rule debounce_advance_wait)
      show "pending ?wl = [?t]" by (rule w(1))
      show "clock ?wl + m < due ?t" using that w(2) by simp
    qed
    then show ?thesis using w(3) wb(2) by simp
  qed
  have "debounce_advance f n ?wl
      = ?wl\<lparr>clock := clock ?wl + n, pending := [],
           calls := calls ?wl @
             [\<lparr>at = due ?t, receiver = Undefined, arguments = callback ?t,
               outcome = f (due ?t) (calls ?wl) Undefined (callback ?t)\<rparr>]\<rparr>"
  proof (rule debounce_advance_fire)
    show "pending ?wl = [?t]" by (rule w(1))
    show "clock ?wl \<le> due ?t" using w(2) by simp
    show "due ?t \<le> clock ?wl + n" using assms(2) w(2) by simp
  qed
  then have fire: "calls (debounce_advance f n ?wl)
        = calls ?w0 @ [\<lparr>at = clock ?wl + W, receiver = Undefined, arguments = args,
            outcome = f (clock ?wl + W) (calls ?w0) Undefined args\<rparr>]"
    and gone: "pending (debounce_advance f n ?wl) = []"
    using w wb(2) by simp_all
  have "pending (fst (debounced f W this' args' ?w0))
      = [\<lparr>handle = nextHandle ?w0, due = clock ?w0 + W, callback = args'\<rparr>]"
    using inv0 by (simp add: debounced_inv)
  with early fire gone w wb show ?thesis
    by (simp add: Let_def)
qed

text \<open>The specification's example: the keys \<open>a\<close>, \<open>b\<close>, \<open>c\<close> typed 5 ms apart with a quiet
  period of 50 ms invoke the callback once, at 60 ms, with \<open>c\<close>.\<close>

theorem debounce_burst_witness:
  "list_all (\<lambda>(this, args, gap). gap < 50)
      [(Object 1, [String ''a''], 5 :: nat), (Object 1, [String ''b''], 5)]
   \<and> (50 :: nat) \<le> 50
   \<and> calls (debounce_advance (\<lambda>t log this args. Return Undefined) 49
        (debounce_run (\<lambda>t log this args. Return Undefined) 50 debounce_new
          (burst [(Object 1, [String ''a''], 5), (Object 1, [String ''b''], 5)]
             @ [Call (Object 1) [String ''c'']])))
      = []
   \<and> calls (debounce_advance (\<lambda>t log this args. Return Undefined) 50
        (debounce_run (\<lambda>t log this args. Return Undefined) 50 debounce_new
          (burst [(Object 1, [String ''a''], 5), (Object 1, [String ''b''], 5)]
             @ [Call (Object 1) [String ''c'']])))
      = [\<lparr>at = 60, receiver = Undefined, arguments = [String ''c''],
           outcome = Return Undefined\<rparr>]"
proof -
  let ?f = "\<lambda>(t::nat) (log::invocation list) (this::jsval) (args::jsval list). Return Undefined"
  let ?cs = "[(Object 1, [String ''a''], 5 :: nat), (Object 1, [String ''b''], 5)]"
  let ?w = "debounce_run ?f 50 debounce_new (burst ?cs @ [Call (Object 1) [String ''c'']])"
  have short: "\<forall>(this, args, gap) \<in> set ?cs. gap < 50"
    by simp
  have new: "calls debounce_new = []" "clock debounce_new = 0"
    by (simp_all add: debounce_new_def)
  note inst = debounce_burst [OF short order_refl, of ?f "[]" "Object 1" "[String ''c'']"]
  from inst have quiet: "calls (debounce_advance ?f 49 ?w) = []"
    by (simp add: Let_def debounce_run_Nil new)
  from inst have fired: "calls (debounce_advance ?f 50 ?w)
      = [\<lparr>at = 60, receiver = Undefined, arguments = [String ''c''],
           outcome = Return Undefined\<rparr>]"
    by (simp add: Let_def debounce_run_Nil new)
  from quiet fired show ?thesis
    by simp
qed

subsection \<open>Claims about both wrappers\<close>

text \<open>
  Claim C5. The debounced wrapper does not hand the receiver on. Whatever the callback,
  the quiet period, the receiver and the arguments of a call to a fresh debounced
  wrapper, the invocation that follows after the quiet period carries the arguments of
  the call, but \<^verbatim>\<open>func(...args)\<close> passes \<^verbatim>\<open>undefined\<close> as \<^verbatim>\<open>this\<close>. So a
  call on the object \<open>Object 1\<close> with the argument 7 invokes the callback 50 ms later
  with the argument 7 and without that object. The throttled wrapper, called in the same
  way, invokes the callback on \<open>Object 1\<close>: \<^verbatim>\<open>func.apply(context, args)\<close> passes
  its own \<^verbatim>\<open>this\<close>.
\<close>

theorem debounce_drops_receiver:
  "calls (debounce_run g W debounce_new [Call this args, Advance W])
     = [\<lparr>at = W, receiver = Undefined, arguments = args, outcome = g W [] Undefined args\<rparr>]
   \<and> calls (debounce_run (\<lambda>t log this args. Return Undefined) 50 debounce_new
        [Call (Object 1) [Number 7], Advance 50])
     = [\<lparr>at = 50, receiver = Undefined, arguments = [Number 7], outcome = Return Undefined\<rparr>]
   \<and> Undefined \<noteq> Object 1
   \<and> calls (throttle_run 3 (\<lambda>t log this args. Finish (Return Undefined)) 50 throttle_new
        [Call (Object 1) [Number 7]])
     = [\<lparr>at = 0, receiver = Object 1, arguments = [Number 7]\<rparr>]"
proof -
  let ?t = "\<lparr>handle = nextHandle debounce_new, due = clock debounce_new + W, callback = args\<rparr>"
  let ?w = "debounce_new\<lparr>nextHandle := Suc (nextHandle debounce_new), pending := [?t],
      timeout := Number (int (nextHandle debounce_new))\<rparr>"
  have call: "fst (debounced g W this args debounce_new) = ?w"
    by (simp add: debounced_inv [OF debounce_inv_new])
  have "debounce_advance g W ?w
      = ?w\<lparr>clock := clock ?w + W, pending := [],
           calls := calls ?w @
             [\<lparr>at = due ?t, receiver = Undefined, arguments = callback ?t,
               outcome = g (due ?t) (calls ?w) Undefined (callback ?t)\<rparr>]\<rparr>"
    by (rule debounce_advance_fire) simp_all
  then have "calls (debounce_advance g W ?w)
      = [\<lparr>at = W, receiver = Undefined, arguments = args,
          outcome = g W [] Undefined args\<rparr>]"
    by (simp add: debounce_new_def)
  then have "calls (debounce_run g W debounce_new [Call this args, Advance W])
     = [\<lparr>at = W, receiver = Undefined, arguments = args, outcome = g W [] Undefined args\<rparr>]"
    by (simp add: debounce_run_def call)
  moreover have "calls (debounce_run (\<lambda>t log this args. Return Undefined) 50 debounce_new
        [Call (Object 1) [Number 7], Advance 50])
     = [\<lparr>at = 50, receiver = Undefined, arguments = [Number 7], outcome = Return Undefined\<rparr>]"
    by code_simp
  moreover have "calls (throttle_run 3 (\<lambda>t log this args. Finish (Return Undefined)) 50
        throttle_new [Call (Object 1) [Number 7]])
     = [\<lparr>at = 0, receiver = Object 1, arguments = [Number 7]\<rparr>]"
    by code_simp
  ultimately show ?thesis by simp
qed

text \<open>
  Claim C7. A debounced wrapper never has more than one timer pending: in every
  reachable state at most one is pending, the \<^verbatim>\<open>clearTimeout(timeout)\<close> that opens
  a call leaves none, and the \<^verbatim>\<open>setTimeout\<close> that follows leaves exactly the new
  one. A throttled wrapper never removes a pending timer by a call, whatever its state
  and its callback; in every reachable state all its pending timers are due at one and
  the same time, and when the callback does not call the wrapper itself at most one is
  pending; and in every reachable state, whatever the callback does, the lock is clear
  once a full interval has passed.
\<close>

theorem single_pending_timer:
  "length (pending (debounce_run f W debounce_new evs)) \<le> 1
   \<and> pending (clearTimeout (timeout (debounce_run f W debounce_new evs))
        (debounce_run f W debounce_new evs)) = []
   \<and> pending (fst (debounced f W this args (debounce_run f W debounce_new evs)))
       = [\<lparr>handle = nextHandle (debounce_run f W debounce_new evs),
            due = clock (debounce_run f W debounce_new evs) + W, callback = args\<rparr>]
   \<and> set (pending w) \<subseteq> set (pending (fst (throttled depth g T this args w)))
   \<and> length (remdups (map due (pending (throttle_run depth g T throttle_new tevs)))) \<le> 1
   \<and> (never_reenters g \<longrightarrow>
        length (pending (throttle_run depth g T throttle_new tevs)) \<le> 1)
   \<and> (T \<le> n \<longrightarrow>
        \<not> truthy (inThrottle
            (throttle_advance n (throttle_run depth g T throttle_new tevs))))"
proof -
  let ?d = "debounce_run f W debounce_new evs"
  let ?t = "throttle_run depth g T throttle_new tevs"
  have d: "debounce_inv ?d"
    by (rule debounce_inv_run [OF debounce_inv_new])
  have t: "throttle_inv T ?t"
    by (rule throttle_inv_run [OF throttle_inv_new])
  from d have "length (pending ?d) \<le> 1"
    by (auto simp: debounce_inv_def)
  moreover have "pending (clearTimeout (timeout ?d) ?d) = []"
    by (rule clear_pending [OF d])
  moreover have "pending (fst (debounced f W this args ?d))
      = [\<lparr>handle = nextHandle ?d, due = clock ?d + W, callback = args\<rparr>]"
    by (simp add: debounced_inv [OF d])
  moreover have "set (pending w) \<subseteq> set (pending (fst (throttled depth g T this args w)))"
    by (rule set_mono_prefix [OF pending_throttled])
  moreover have "length (remdups (map due (pending ?t))) \<le> 1"
  proof -
    from t obtain e where "\<forall>u\<in>set (pending ?t). due u = e"
      by (auto simp: throttle_inv_def)
    then have "set (map due (pending ?t)) \<subseteq> {e}" by auto
    then have "card (set (map due (pending ?t))) \<le> card {e}"
      by (intro card_mono) simp_all
    then show ?thesis by (simp add: length_remdups_card_conv)
  qed
  moreover have "length (pending ?t) \<le> 1" if "never_reenters g"
    using single_inv_run [OF that single_inv_new, of T depth tevs]
    by (auto simp: single_inv_def split: if_splits)
  moreover have "\<not> truthy (inThrottle (throttle_advance n ?t))" if "T \<le> n"
  proof (cases "pending ?t = []")
    case True
    with t have "\<not> truthy (inThrottle ?t)" by (simp add: throttle_inv_def)
    with True show ?thesis by (simp add: throttle_advance_idle)
  next
    case False
    from t obtain e where e: "e \<le> clock ?t + T" "\<forall>u\<in>set (pending ?t). due u = e"
      by (auto simp: throttle_inv_def)
    from e(1) that have "e \<le> clock ?t + n" by simp
    with False e(2) have "throttle_advance n ?t
        = ?t\<lparr>clock := clock ?t + n, pending := [], inThrottle := Boolean False\<rparr>"
      by (intro throttle_advance_fire)
    then show ?thesis by simp
  qed
  ultimately show ?thesis by blast
qed

text \<open>The claim at work: three debounced calls in a row leave one timer, that of the
  third; a throttled wrapper locked at time 0 with interval 100 has one timer pending
  and is unlocked after 100 ms.\<close>

theorem single_pending_timer_witness:
  "(100 :: nat) \<le> 100
   \<and> never_reenters (\<lambda>t log this args. Finish (Return Undefined))
   \<and> map callback (pending (debounce_run (\<lambda>t log this args. Return Undefined) 50 debounce_new
        [Call Undefined [Number 1], Call Undefined [Number 2], Call Undefined [Number 3]]))
      = [[Number 3]]
   \<and> truthy (inThrottle (throttle_run 3 (\<lambda>t log this args. Finish (Return Undefined)) 100
        throttle_new [Call Undefined []]))
   \<and> length (pending (throttle_run 3 (\<lambda>t log this args. Finish (Return Undefined)) 100
        throttle_new [Call Undefined []])) \<le> 1
   \<and> \<not> truthy (inThrottle (throttle_advance 100
        (throttle_run 3 (\<lambda>t log this args. Finish (Return Undefined)) 100 throttle_new
           [Call Undefined []])))"
proof -
  let ?f = "\<lambda>(t::nat) (log::invocation list) (this::jsval) (args::jsval list). Return Undefined"
  let ?g = "\<lambda>(t::nat) (log::call list) (this::jsval) (args::jsval list).
      Finish (Return Undefined)"
  have g: "never_reenters ?g"
    by (simp add: never_reenters_def)
  have a: "map callback (pending (debounce_run ?f 50 debounce_new
        [Call Undefined [Number 1], Call Undefined [Number 2], Call Undefined [Number 3]]))
      = [[Number 3]]"
    by code_simp
  have b: "truthy (inThrottle (throttle_run 3 ?g 100 throttle_new [Call Undefined []]))"
    by code_simp
  from single_pending_timer [of ?f 50 "[]" Undefined "[]" throttle_new 3 ?g 100
      "[Call Undefined []]" 100] g
  have "length (pending (throttle_run 3 ?g 100 throttle_new [Call Undefined []])) \<le> 1
      \<and> \<not> truthy (inThrottle (throttle_advance 100
            (throttle_run 3 ?g 100 throttle_new [Call Undefined []])))"
    by simp
  with a b g show ?thesis by simp
qed

text \<open>
  Claim C10, as amended. Neither wrapper hands a value of the callback back. A throttled
  call returns \<open>undefined\<close> when it finds the lock set, and also when it invokes the
  callback and the callback returns, whatever value that is and whether or not it called
  the wrapper meanwhile; it never returns anything else. When it invokes the callback
  and the callback throws, the call does not return: the exception leaves the wrapper.
  A debounced call always returns \<open>undefined\<close> and invokes nothing; the callback is
  invoked later, from the timer.
\<close>

theorem wrappers_return_undefined:
  "(f (clock w) (calls w) (this_binding this) args = Finish (Return r) \<longrightarrow>
        snd (throttled depth f T this args w) = Return Undefined)
   \<and> (returns (f (clock w) (calls w) (this_binding this) args) \<longrightarrow>
        snd (throttled depth f T this args w) = Return Undefined)
   \<and> (truthy (inThrottle w) \<longrightarrow> snd (throttled depth f T this args w) = Return Undefined)
   \<and> (snd (throttled depth f T this args w) = Return v \<longrightarrow> v = Undefined)
   \<and> (\<not> truthy (inThrottle w)
        \<and> f (clock w) (calls w) (this_binding this) args = Finish (Throw e) \<longrightarrow>
        snd (throttled depth f T this args w) = Throw e)
   \<and> snd (debounced g W this args d) = Return Undefined
   \<and> calls (fst (debounced g W this args d)) = calls d"
proof -
  have ret: "snd (throttled depth f T this args w) = Return Undefined"
    if "returns (f (clock w) (calls w) (this_binding this) args)"
  proof (cases "truthy (inThrottle w)")
    case True
    then show ?thesis by (simp add: throttled_locked)
  next
    case False
    from False that show ?thesis by (rule throttled_returns(1))
  qed
  then have "snd (throttled depth f T this args w) = Return Undefined"
    if "f (clock w) (calls w) (this_binding this) args = Finish (Return r)"
    using that by simp
  moreover have "snd (throttled depth f T this args w) = Return Undefined"
    if "truthy (inThrottle w)"
    using that by (simp add: throttled_locked)
  moreover have "v = Undefined" if "snd (throttled depth f T this args w) = Return v"
    using that by (rule throttled_value)
  moreover have "snd (throttled depth f T this args w) = Throw e"
    if "\<not> truthy (inThrottle w)"
      and "f (clock w) (calls w) (this_binding this) args = Finish (Throw e)"
    using that by (simp add: throttled_throw)
  moreover have "snd (debounced g W this args d) = Return Undefined"
    "calls (fst (debounced g W this args d)) = calls d"
    by (simp_all add: debounced_def setTimeout_def clearTimeout_def Let_def)
  ultimately show ?thesis using ret by blast
qed

text \<open>The amended claim at work. A callback that returns 42: the invocation is logged
  and the throttled call returns \<open>undefined\<close>; so does the next call, which finds the
  lock set. A callback that throws: the call throws.\<close>

theorem wrappers_return_undefined_witness:
  "length (calls (fst (throttled 3 (\<lambda>t log this args. Finish (Return (Number 42))) 100
        Undefined [] throttle_new))) = 1
   \<and> returns (Finish (Return (Number 42)))
   \<and> snd (throttled 3 (\<lambda>t log this args. Finish (Return (Number 42))) 100 Undefined []
        throttle_new)
      = Return Undefined
   \<and> truthy (inThrottle (fst (throttled 3 (\<lambda>t log this args. Finish (Return (Number 42))) 100
        Undefined [] throttle_new)))
   \<and> snd (throttled 3 (\<lambda>t log this args. Finish (Return (Number 42))) 100 Undefined []
        (fst (throttled 3 (\<lambda>t log this args. Finish (Return (Number 42))) 100 Undefined []
           throttle_new)))
      = Return Undefined
   \<and> \<not> truthy (inThrottle throttle_new)
   \<and> snd (throttled 3 (\<lambda>t log this args. Finish (Throw (String ''boom''))) 100 Undefined []
        throttle_new) = Throw (String ''boom'')"
proof -
  let ?f = "\<lambda>(t::nat) (log::call list) (this::jsval) (args::jsval list).
      Finish (Return (Number 42))"
  let ?g = "\<lambda>(t::nat) (log::call list) (this::jsval) (args::jsval list).
      Finish (Throw (String ''boom''))"
  let ?w1 = "fst (throttled 3 ?f 100 Undefined [] throttle_new)"
  have logged: "length (calls ?w1) = 1"
    by code_simp
  have locked: "truthy (inThrottle ?w1)"
    by code_simp
  have open_: "\<not> truthy (inThrottle throttle_new)"
    by (simp add: throttle_new_def)
  have ret: "returns (Finish (Return (Number 42)))"
    by simp
  from wrappers_return_undefined [of ?f throttle_new Undefined "[]" "Number 42" 3 100]
  have first: "snd (throttled 3 ?f 100 Undefined [] throttle_new) = Return Undefined"
    by simp
  from wrappers_return_undefined [of ?f ?w1 Undefined "[]" _ 3 100] locked
  have second: "snd (throttled 3 ?f 100 Undefined [] ?w1) = Return Undefined"
    by blast
  from wrappers_return_undefined [of ?g throttle_new Undefined "[]" _ 3 100 _
      "String ''boom''"] open_
  have third: "snd (throttled 3 ?g 100 Undefined [] throttle_new) = Throw (String ''boom'')"
    by simp
  from logged ret first locked second open_ third show ?thesis
    by (intro conjI)
qed

text \<open>
  Claim C10 as stated fails for a callback that throws: the first call to a fresh
  throttled wrapper then does not return \<open>undefined\<close>, it throws what the callback
  threw.
\<close>

theorem wrappers_return_undefined_counterexample:
  "snd (throttled 3 (\<lambda>t log this args. Finish (Throw (String ''boom''))) 100 Undefined []
        throttle_new)
     = Throw (String ''boom'')
   \<and> Throw (String ''boom'') \<noteq> Return Undefined"
  by code_simp


end
